theory Spec2Isabelle
  imports Complex_Main
begin

section \<open>Python values: bytes, str and the two codecs\<close>

text \<open>
  A Python \<open>bytes\<close> object is a list of 8-bit characters, so a byte literal such as
  \<open>b':path'\<close> is the HOL string \<open>'':path''\<close>.  A Python \<open>str\<close> is a list of Unicode code
  points; its \<open>len\<close> counts code points, the \<open>len\<close> of its encoding counts bytes.
\<close>

type_synonym bytes = string
type_synonym str = "nat list"

datatype exn =
    UnicodeDecodeError bytes
  | UnicodeEncodeError str
  | TransportError
  | AttributeError
  | KeyError
  | InvalidStateError
  | TimeoutError

text \<open>The state reached so far travels with a raised exception, since the statements
  executed before the raise have already had their effect.\<close>

datatype 's result = Ok 's | Raise exn 's

definition ascii :: "string \<Rightarrow> str" where
  "ascii cs = map of_char cs"

subsection \<open>\<open>str.encode()\<close>: strict UTF-8\<close>

definition encode_cp :: "nat \<Rightarrow> bytes option" where
  "encode_cp c =
     (if c < 0x80 then Some [char_of c]
      else if c < 0x800 then
        Some [char_of (0xC0 + c div 0x40), char_of (0x80 + c mod 0x40)]
      else if 0xD800 \<le> c \<and> c \<le> 0xDFFF then None
      else if c < 0x10000 then
        Some [char_of (0xE0 + c div 0x1000), char_of (0x80 + c div 0x40 mod 0x40),
              char_of (0x80 + c mod 0x40)]
      else if c < 0x110000 then
        Some [char_of (0xF0 + c div 0x40000), char_of (0x80 + c div 0x1000 mod 0x40),
              char_of (0x80 + c div 0x40 mod 0x40), char_of (0x80 + c mod 0x40)]
      else None)"

fun encode_cps :: "str \<Rightarrow> bytes option" where
  "encode_cps [] = Some []"
| "encode_cps (c # cs) =
     (case encode_cp c of
        None \<Rightarrow> None
      | Some bs \<Rightarrow> (case encode_cps cs of None \<Rightarrow> None | Some r \<Rightarrow> Some (bs @ r)))"

definition encode :: "str \<Rightarrow> exn + bytes" where
  "encode s = (case encode_cps s of None \<Rightarrow> Inl (UnicodeEncodeError s) | Some bs \<Rightarrow> Inr bs)"

subsection \<open>\<open>bytes.decode('utf-8')\<close>: strict UTF-8\<close>

definition cont :: "nat \<Rightarrow> bool" where
  "cont b = (0x80 \<le> b \<and> b \<le> 0xBF)"

text \<open>The second byte of a three- or four-byte sequence has a narrower range after the lead
  bytes E0, ED, F0 and F4: overlong forms, surrogates and values past U+10FFFF are rejected.\<close>

definition second_ok :: "nat \<Rightarrow> nat \<Rightarrow> bool" where
  "second_ok b0 b1 =
     (if b0 = 0xE0 then 0xA0 \<le> b1 \<and> b1 \<le> 0xBF
      else if b0 = 0xED then 0x80 \<le> b1 \<and> b1 \<le> 0x9F
      else if b0 = 0xF0 then 0x90 \<le> b1 \<and> b1 \<le> 0xBF
      else if b0 = 0xF4 then 0x80 \<le> b1 \<and> b1 \<le> 0x8F
      else cont b1)"

fun decode_cps :: "nat list \<Rightarrow> str option" where
  "decode_cps [] = Some []"
| "decode_cps (b0 # bs) =
     (if b0 < 0x80 then map_option ((#) b0) (decode_cps bs)
      else if 0xC2 \<le> b0 \<and> b0 \<le> 0xDF then
        (case bs of
           b1 # r \<Rightarrow>
             if cont b1
             then map_option ((#) ((b0 - 0xC0) * 0x40 + (b1 - 0x80))) (decode_cps r)
             else None
         | _ \<Rightarrow> None)
      else if 0xE0 \<le> b0 \<and> b0 \<le> 0xEF then
        (case bs of
           b1 # b2 # r \<Rightarrow>
             if second_ok b0 b1 \<and> cont b2
             then map_option
                    ((#) ((b0 - 0xE0) * 0x1000 + (b1 - 0x80) * 0x40 + (b2 - 0x80)))
                    (decode_cps r)
             else None
         | _ \<Rightarrow> None)
      else if 0xF0 \<le> b0 \<and> b0 \<le> 0xF4 then
        (case bs of
           b1 # b2 # b3 # r \<Rightarrow>
             if second_ok b0 b1 \<and> cont b2 \<and> cont b3
             then map_option
                    ((#) ((b0 - 0xF0) * 0x40000 + (b1 - 0x80) * 0x1000
                          + (b2 - 0x80) * 0x40 + (b3 - 0x80)))
                    (decode_cps r)
             else None
         | _ \<Rightarrow> None)
      else None)"

definition decode :: "bytes \<Rightarrow> exn + str" where
  "decode b =
     (case decode_cps (map of_char b) of
        None \<Rightarrow> Inl (UnicodeDecodeError b)
      | Some s \<Rightarrow> Inr s)"

subsection \<open>\<open>str(n)\<close> for an integer\<close>

definition digit :: "nat \<Rightarrow> nat" where
  "digit d = 0x30 + d"

fun str_nat :: "nat \<Rightarrow> str" where
  "str_nat n = (if n < 10 then [digit n] else str_nat (n div 10) @ [digit (n mod 10)])"

declare str_nat.simps [simp del]

definition str_int :: "int \<Rightarrow> str" where
  "str_int i = (if i < 0 then 0x2D # str_nat (nat (- i)) else str_nat (nat i))"


section \<open>\<open>json.dumps(data, indent=2)\<close>\<close>

text \<open>
  The values the server serialises: dictionaries (in insertion order) with string keys,
  lists, strings and integers.  The serialiser is the standard library's, with its default
  \<open>ensure_ascii=True\<close>: every character outside the printable ASCII range is written as a
  \<open>\u\<close> escape, a character beyond the basic plane as a surrogate pair.
\<close>

datatype json =
    JNull
  | JBool bool
  | JInt int
  | JStr str
  | JList "json list"
  | JDict "(str \<times> json) list"

definition hex_digit :: "nat \<Rightarrow> nat" where
  "hex_digit d = (if d < 10 then 0x30 + d else 0x61 + (d - 10))"

definition hex4 :: "nat \<Rightarrow> str" where
  "hex4 n = [hex_digit (n div 0x1000 mod 0x10), hex_digit (n div 0x100 mod 0x10),
             hex_digit (n div 0x10 mod 0x10), hex_digit (n mod 0x10)]"

definition u_escape :: "nat \<Rightarrow> str" where
  "u_escape n = [0x5C, 0x75] @ hex4 n"

definition escape_char :: "nat \<Rightarrow> str" where
  "escape_char c =
     (if c = 0x5C then [0x5C, 0x5C]
      else if c = 0x22 then [0x5C, 0x22]
      else if c = 0x08 then [0x5C, 0x62]
      else if c = 0x0C then [0x5C, 0x66]
      else if c = 0x0A then [0x5C, 0x6E]
      else if c = 0x0D then [0x5C, 0x72]
      else if c = 0x09 then [0x5C, 0x74]
      else if 0x20 \<le> c \<and> c \<le> 0x7E then [c]
      else if c < 0x10000 then u_escape c
      else u_escape (0xD800 + (c - 0x10000) div 0x400 mod 0x400)
           @ u_escape (0xDC00 + (c - 0x10000) mod 0x400))"

definition encode_basestring_ascii :: "str \<Rightarrow> str" where
  "encode_basestring_ascii s = [0x22] @ concat (map escape_char s) @ [0x22]"

definition newline_indent :: "nat \<Rightarrow> str" where
  "newline_indent level = 0x0A # replicate (2 * level) 0x20"

fun iterencode :: "nat \<Rightarrow> json \<Rightarrow> str"
  and iterencode_list :: "nat \<Rightarrow> json list \<Rightarrow> str"
  and iterencode_dict :: "nat \<Rightarrow> (str \<times> json) list \<Rightarrow> str"
where
  "iterencode level JNull = ascii ''null''"
| "iterencode level (JBool b) = (if b then ascii ''true'' else ascii ''false'')"
| "iterencode level (JInt i) = str_int i"
| "iterencode level (JStr s) = encode_basestring_ascii s"
| "iterencode level (JList []) = ascii ''[]''"
| "iterencode level (JList (x # xs)) =
     ascii ''['' @ newline_indent (level + 1) @ iterencode (level + 1) x
     @ iterencode_list (level + 1) xs @ newline_indent level @ ascii '']''"
| "iterencode level (JDict []) = ascii ''{}''"
| "iterencode level (JDict ((k, v) # kvs)) =
     ascii ''{'' @ newline_indent (level + 1)
     @ encode_basestring_ascii k @ ascii '': '' @ iterencode (level + 1) v
     @ iterencode_dict (level + 1) kvs @ newline_indent level @ ascii ''}''"
| "iterencode_list level [] = []"
| "iterencode_list level (x # xs) =
     ascii '','' @ newline_indent level @ iterencode level x @ iterencode_list level xs"
| "iterencode_dict level [] = []"
| "iterencode_dict level ((k, v) # kvs) =
     ascii '','' @ newline_indent level
     @ encode_basestring_ascii k @ ascii '': '' @ iterencode level v
     @ iterencode_dict level kvs"

definition json_dumps :: "json \<Rightarrow> str" where
  "json_dumps data = iterencode 0 data"

section \<open>\<open>json.loads(text)\<close>\<close>

text \<open>
  The standard library's decoder, for the documents whose values are objects, arrays,
  strings, integers, \<open>true\<close>, \<open>false\<close> and \<open>null\<close>; \<open>None\<close> stands for a \<open>JSONDecodeError\<close> and
  for a document with a value outside this fragment (a number with a fraction or an
  exponent, \<open>NaN\<close>, \<open>Infinity\<close>).  An object is returned as its members in document order;
  looking a key up in it is \<open>dict\<close>, where the last member with that key counts.
\<close>

definition is_ws :: "nat \<Rightarrow> bool" where
  "is_ws c = (c = 0x20 \<or> c = 0x09 \<or> c = 0x0A \<or> c = 0x0D)"

definition skip_ws :: "str \<Rightarrow> str" where
  "skip_ws s = dropWhile is_ws s"

definition unhex :: "nat \<Rightarrow> nat option" where
  "unhex c =
     (if 0x30 \<le> c \<and> c \<le> 0x39 then Some (c - 0x30)
      else if 0x61 \<le> c \<and> c \<le> 0x66 then Some (c - 0x61 + 10)
      else if 0x41 \<le> c \<and> c \<le> 0x46 then Some (c - 0x41 + 10)
      else None)"

definition unhex4 :: "str \<Rightarrow> nat option" where
  "unhex4 ds =
     (case map unhex ds of
        [Some a, Some b, Some c, Some d] \<Rightarrow> Some (((a * 0x10 + b) * 0x10 + c) * 0x10 + d)
      | _ \<Rightarrow> None)"

definition unescape :: "nat \<Rightarrow> nat option" where
  "unescape e =
     (if e = 0x22 then Some 0x22
      else if e = 0x5C then Some 0x5C
      else if e = 0x2F then Some 0x2F
      else if e = 0x62 then Some 0x08
      else if e = 0x66 then Some 0x0C
      else if e = 0x6E then Some 0x0A
      else if e = 0x72 then Some 0x0D
      else if e = 0x74 then Some 0x09
      else None)"

text \<open>What follows a \<open>\u\<close> escape that gave a high surrogate: another well-formed \<open>\uXXXX\<close>
  (\<open>Some (Some n)\<close>), a malformed one (\<open>None\<close>, an error), or anything else (\<open>Some None\<close>).\<close>

definition peek_u :: "str \<Rightarrow> nat option option" where
  "peek_u s =
     (if take 2 s = [0x5C, 0x75] \<and> 6 \<le> length s
      then (case unhex4 (take 4 (drop 2 s)) of None \<Rightarrow> None | Some n \<Rightarrow> Some (Some n))
      else Some None)"

definition cons_char :: "nat \<Rightarrow> (str \<times> str) option \<Rightarrow> (str \<times> str) option" where
  "cons_char c r = map_option (\<lambda>(t, rest). (c # t, rest)) r"

text \<open>\<open>scanstring\<close>, from the character after the opening quote: the decoded string and the
  text after the closing quote.  A control character inside the string is an error.\<close>

function scanstring :: "str \<Rightarrow> (str \<times> str) option" where
  "scanstring [] = None"
| "scanstring (c # cs) =
     (if c = 0x22 then Some ([], cs)
      else if c = 0x5C then
        (case cs of
           [] \<Rightarrow> None
         | e # r \<Rightarrow>
             if e = 0x75 then
               (if length r < 4 then None
                else
                  (case unhex4 (take 4 r) of
                     None \<Rightarrow> None
                   | Some uni \<Rightarrow>
                       if 0xD800 \<le> uni \<and> uni \<le> 0xDBFF then
                         (case peek_u (drop 4 r) of
                            None \<Rightarrow> None
                          | Some None \<Rightarrow> cons_char uni (scanstring (drop 4 r))
                          | Some (Some uni2) \<Rightarrow>
                              if 0xDC00 \<le> uni2 \<and> uni2 \<le> 0xDFFF
                              then cons_char
                                     (0x10000 + (uni - 0xD800) * 0x400 + (uni2 - 0xDC00))
                                     (scanstring (drop 10 r))
                              else cons_char uni (scanstring (drop 4 r)))
                       else cons_char uni (scanstring (drop 4 r))))
             else
               (case unescape e of
                  None \<Rightarrow> None
                | Some ch \<Rightarrow> cons_char ch (scanstring r)))
      else if c < 0x20 then None
      else cons_char c (scanstring cs))"
  by pat_completeness auto
termination
  by (relation "measure length") auto

declare scanstring.simps [simp del]

definition is_digit :: "nat \<Rightarrow> bool" where
  "is_digit c = (0x30 \<le> c \<and> c \<le> 0x39)"

definition digits_value :: "str \<Rightarrow> nat" where
  "digits_value ds = foldl (\<lambda>n d. n * 10 + (d - 0x30)) 0 ds"

text \<open>An integer literal: \<open>-?(0|[1-9][0-9]*)\<close>, not followed by a fraction or an exponent.\<close>

definition scan_int :: "str \<Rightarrow> (int \<times> str) option" where
  "scan_int s =
     (let neg = (take 1 s = [0x2D]);
          s1 = (if neg then drop 1 s else s);
          ds = takeWhile is_digit s1;
          rest = dropWhile is_digit s1
      in if ds = [] then None
         else if take 1 ds = [0x30] \<and> 1 < length ds then None
         else if take 1 rest = [0x2E] \<or> take 1 rest = [0x65] \<or> take 1 rest = [0x45] then None
         else Some (if neg then - int (digits_value ds) else int (digits_value ds), rest))"

text \<open>The decoder proper.  The first argument bounds the number of nested calls; each
  call is made after at least one character has been read, so the length of the text is
  bound enough.\<close>

fun parse_value :: "nat \<Rightarrow> str \<Rightarrow> (json \<times> str) option"
  and parse_members :: "nat \<Rightarrow> str \<Rightarrow> ((str \<times> json) list \<times> str) option"
  and parse_items :: "nat \<Rightarrow> str \<Rightarrow> (json list \<times> str) option"
where
  "parse_value 0 s = None"
| "parse_value (Suc n) [] = None"
| "parse_value (Suc n) (c # r) =
     (if c = 0x22 then map_option (\<lambda>(t, rest). (JStr t, rest)) (scanstring r)
      else if c = 0x7B then
        (case skip_ws r of
           [] \<Rightarrow> None
         | d # r' \<Rightarrow>
             if d = 0x7D then Some (JDict [], r')
             else if d = 0x22
             then map_option (\<lambda>(kvs, rest). (JDict kvs, rest)) (parse_members n r')
             else None)
      else if c = 0x5B then
        (case skip_ws r of
           [] \<Rightarrow> None
         | d # r' \<Rightarrow>
             if d = 0x5D then Some (JList [], r')
             else map_option (\<lambda>(vs, rest). (JList vs, rest)) (parse_items n (d # r')))
      else if take 4 (c # r) = ascii ''null'' then Some (JNull, drop 4 (c # r))
      else if take 4 (c # r) = ascii ''true'' then Some (JBool True, drop 4 (c # r))
      else if take 5 (c # r) = ascii ''false'' then Some (JBool False, drop 5 (c # r))
      else if c = 0x2D \<or> is_digit c
      then map_option (\<lambda>(i, rest). (JInt i, rest)) (scan_int (c # r))
      else None)"
| "parse_members 0 s = None"
| "parse_members (Suc n) s =
     (case scanstring s of
        None \<Rightarrow> None
      | Some (k, r1) \<Rightarrow>
          (case skip_ws r1 of
             [] \<Rightarrow> None
           | c # r2 \<Rightarrow>
               if c = 0x3A then
                 (case parse_value n (skip_ws r2) of
                    None \<Rightarrow> None
                  | Some (v, r3) \<Rightarrow>
                      (case skip_ws r3 of
                         [] \<Rightarrow> None
                       | e # r4 \<Rightarrow>
                           if e = 0x7D then Some ([(k, v)], r4)
                           else if e = 0x2C then
                             (case skip_ws r4 of
                                [] \<Rightarrow> None
                              | q # r5 \<Rightarrow>
                                  if q = 0x22
                                  then map_option (\<lambda>(kvs, rest). ((k, v) # kvs, rest))
                                         (parse_members n r5)
                                  else None)
                           else None))
               else None))"
| "parse_items 0 s = None"
| "parse_items (Suc n) s =
     (case parse_value n s of
        None \<Rightarrow> None
      | Some (v, r1) \<Rightarrow>
          (case skip_ws r1 of
             [] \<Rightarrow> None
           | e # r2 \<Rightarrow>
               if e = 0x5D then Some ([v], r2)
               else if e = 0x2C
               then map_option (\<lambda>(vs, rest). (v # vs, rest)) (parse_items n (skip_ws r2))
               else None))"

definition json_loads :: "str \<Rightarrow> json option" where
  "json_loads s =
     (case parse_value (Suc (length s)) (skip_ws s) of
        None \<Rightarrow> None
      | Some (v, rest) \<Rightarrow> if skip_ws rest = [] then Some v else None)"

section \<open>The HTTP/3 connection the protocols drive\<close>

text \<open>
  \<open>H3Connection\<close> and the QUIC connection under it are the transport library's.  What the
  protocols do to it is a sequence of calls; \<open>h3_sent\<close> records the calls the library took.
  Whether the library takes a call or raises (a stream the peer has reset, a frame sent in
  the wrong state) is the library's business: \<open>accepts\<close> decides it from the calls taken so
  far.  The environment also gives the successive readings of the wall clock
  (\<open>datetime.now().isoformat()\<close>) and the text \<open>str(e)\<close> of an exception.
\<close>

type_synonym header_list = "(bytes \<times> bytes) list"

datatype wire_op =
    SendHeaders nat header_list bool
  | SendData nat bytes bool
  | Transmit

record env =
  accepts :: "wire_op list \<Rightarrow> wire_op \<Rightarrow> bool"
  isoformat_now :: "nat \<Rightarrow> str"
  exn_text :: "exn \<Rightarrow> str"

record h3 =
  h3_sent :: "wire_op list"

definition h3_call :: "env \<Rightarrow> wire_op \<Rightarrow> 'a h3_scheme \<Rightarrow> 'a h3_scheme result" where
  "h3_call env op s =
     (if accepts env (h3_sent s) op then Ok (s\<lparr>h3_sent := h3_sent s @ [op]\<rparr>)
      else Raise TransportError s)"

definition send_headers ::
  "env \<Rightarrow> nat \<Rightarrow> header_list \<Rightarrow> bool \<Rightarrow> 'a h3_scheme \<Rightarrow> 'a h3_scheme result" where
  "send_headers env stream_id headers end_stream = h3_call env (SendHeaders stream_id headers end_stream)"

definition send_data ::
  "env \<Rightarrow> nat \<Rightarrow> bytes \<Rightarrow> bool \<Rightarrow> 'a h3_scheme \<Rightarrow> 'a h3_scheme result" where
  "send_data env stream_id data end_stream = h3_call env (SendData stream_id data end_stream)"

definition transmit :: "env \<Rightarrow> 'a h3_scheme \<Rightarrow> 'a h3_scheme result" where
  "transmit env = h3_call env Transmit"

datatype h3_event =
    HeadersReceived nat header_list bool
  | DataReceived nat bytes bool
  | OtherEvent

text \<open>\<open>dict(pairs)\<close>: a later pair with the same key replaces an earlier one.\<close>

definition dict :: "('k \<times> 'v) list \<Rightarrow> ('k \<rightharpoonup> 'v)" where
  "dict pairs = map_of (rev pairs)"

definition dict_get :: "('k \<rightharpoonup> 'v) \<Rightarrow> 'k \<Rightarrow> 'v \<Rightarrow> 'v" where
  "dict_get d k dflt = (case d k of None \<Rightarrow> dflt | Some v \<Rightarrow> v)"

section \<open>The server: \<open>HttpServerProtocol\<close>\<close>

record server = h3 +
  clock_reads :: nat

definition get_homepage :: str where
  \<open>get_homepage =
     ascii ''<!DOCTYPE html>\<newline>'' @
     ascii ''<html>\<newline>'' @
     ascii ''<head>\<newline>'' @
     ascii ''    <title>HTTP/3 Server</title>\<newline>'' @
     ascii ''    <style>\<newline>'' @
     ascii ''        body { font-family: Arial, sans-serif; max-width: 800px; margin: 50px auto; padding: 20px; background: #f5f5f5; }\<newline>'' @
     ascii ''        h1 { color: #333; }\<newline>'' @
     ascii ''        .info { background: white; padding: 20px; border-radius: 8px; box-shadow: 0 2px 4px rgba(0,0,0,0.1); margin: 20px 0; }\<newline>'' @
     ascii ''        .protocol { color: #4CAF50; font-weight: bold; font-size: 1.2em; }\<newline>'' @
     ascii ''        .endpoint { background: #fff; padding: 15px; margin: 10px 0; border-left: 4px solid #4CAF50; border-radius: 4px; }\<newline>'' @
     ascii ''        .endpoint strong { color: #2196F3; }\<newline>'' @
     ascii ''    </style>\<newline>'' @
     ascii ''</head>\<newline>'' @
     ascii ''<body>\<newline>'' @
     ascii ''    <h1>'' @ [0x1F680] @ ascii '' HTTP/3 Server Running on Kali Linux</h1>\<newline>'' @
     ascii ''    <div class="info">\<newline>'' @
     ascii ''        <p>Protocol: <span class="protocol">HTTP/3 (QUIC)</span></p>\<newline>'' @
     ascii ''        <p>Port: 4433</p>\<newline>'' @
     ascii ''        <p>Status: '' @ [0x2705] @ ascii '' Active and Ready</p>\<newline>'' @
     ascii ''    </div>\<newline>'' @
     ascii ''    <h2>'' @ [0x1F4E1] @ ascii '' Available Endpoints:</h2>\<newline>'' @
     ascii ''    <div class="endpoint">\<newline>'' @
     ascii ''        <strong>GET /api/status</strong><br>\<newline>'' @
     ascii ''        Returns server health status and timestamp\<newline>'' @
     ascii ''    </div>\<newline>'' @
     ascii ''    <div class="endpoint">\<newline>'' @
     ascii ''        <strong>GET /api/data</strong><br>\<newline>'' @
     ascii ''        Returns sample JSON data\<newline>'' @
     ascii ''    </div>\<newline>'' @
     ascii ''</body>\<newline>'' @
     ascii ''</html>''\<close>

definition send_response_try ::
  "env \<Rightarrow> nat \<Rightarrow> int \<Rightarrow> str \<Rightarrow> str \<Rightarrow> server \<Rightarrow> server result" where
  "send_response_try env sid status_code body content_type s =
     (case encode (str_int status_code) of
        Inl e \<Rightarrow> Raise e s
      | Inr status \<Rightarrow>
     (case encode content_type of
        Inl e \<Rightarrow> Raise e s
      | Inr ctype \<Rightarrow>
     (case encode (str_int (int (length body))) of
        Inl e \<Rightarrow> Raise e s
      | Inr clen \<Rightarrow>
     (case send_headers env sid
             [('':status'', status), (''content-type'', ctype),
              (''content-length'', clen), (''server'', ''HTTP/3-Python-Server'')]
             False s of
        Raise e s1 \<Rightarrow> Raise e s1
      | Ok s1 \<Rightarrow>
     (case encode body of
        Inl e \<Rightarrow> Raise e s1
      | Inr payload \<Rightarrow>
     (case send_data env sid payload True s1 of
        Raise e s2 \<Rightarrow> Raise e s2
      | Ok s2 \<Rightarrow> transmit env s2))))))"

text \<open>\<open>except Exception as e: logger.error(...)\<close>: whatever the body raised is swallowed.\<close>

definition send_response ::
  "env \<Rightarrow> nat \<Rightarrow> int \<Rightarrow> str \<Rightarrow> str \<Rightarrow> server \<Rightarrow> server result" where
  "send_response env sid status_code body content_type s =
     (case send_response_try env sid status_code body content_type s of
        Ok s' \<Rightarrow> Ok s'
      | Raise e s' \<Rightarrow> Ok s')"

definition send_json_response :: "env \<Rightarrow> nat \<Rightarrow> int \<Rightarrow> json \<Rightarrow> server \<Rightarrow> server result" where
  "send_json_response env sid status_code data s =
     send_response env sid status_code (json_dumps data) (ascii ''application/json'') s"


text \<open>The body of \<open>handle_request\<close> inside its \<open>try\<close>.  The \<open>stream_ended\<close> flag of the
  event is never read; \<open>method\<close> is decoded (and logged) but takes no part in the routing.
  Only a \<open>HeadersReceived\<close> event has the \<open>headers\<close> attribute the first line reads.\<close>

fun handle_request_try :: "env \<Rightarrow> h3_event \<Rightarrow> server \<Rightarrow> server result" where
  "handle_request_try env (HeadersReceived sid hdrs ended) s =
     (case decode (dict_get (dict hdrs) '':path'' ''/'') of
        Inl e \<Rightarrow> Raise e s
      | Inr path \<Rightarrow>
     (case decode (dict_get (dict hdrs) '':method'' ''GET'') of
        Inl e \<Rightarrow> Raise e s
      | Inr method \<Rightarrow>
        if path = ascii ''/'' then
          send_response env sid 200 get_homepage (ascii ''text/html'') s
        else if path = ascii ''/api/status'' then
          send_json_response env sid 200
            (JDict [(ascii ''status'', JStr (ascii ''healthy'')),
                    (ascii ''protocol'', JStr (ascii ''HTTP/3'')),
                    (ascii ''timestamp'', JStr (isoformat_now env (clock_reads s)))])
            (s\<lparr>clock_reads := clock_reads s + 1\<rparr>)
        else if path = ascii ''/api/data'' then
          send_json_response env sid 200
            (JDict [(ascii ''message'', JStr (ascii ''Sample data from HTTP/3 server'')),
                    (ascii ''items'', JList
                       [JDict [(ascii ''id'', JInt 1), (ascii ''name'', JStr (ascii ''Item 1'')),
                               (ascii ''value'', JInt 100)],
                        JDict [(ascii ''id'', JInt 2), (ascii ''name'', JStr (ascii ''Item 2'')),
                               (ascii ''value'', JInt 200)],
                        JDict [(ascii ''id'', JInt 3), (ascii ''name'', JStr (ascii ''Item 3'')),
                               (ascii ''value'', JInt 300)]])])
            s
        else
          send_json_response env sid 404
            (JDict [(ascii ''error'', JStr (ascii ''Not Found'')), (ascii ''path'', JStr path)])
            s))"
| "handle_request_try env (DataReceived sid payload ended) s = Raise AttributeError s"
| "handle_request_try env OtherEvent s = Raise AttributeError s"

text \<open>\<open>event.stream_id\<close>, read by the \<open>except\<close> clause: an event without that attribute
  makes the read itself raise.\<close>

fun event_stream_id :: "h3_event \<Rightarrow> exn + nat" where
  "event_stream_id (HeadersReceived sid hdrs ended) = Inr sid"
| "event_stream_id (DataReceived sid payload ended) = Inr sid"
| "event_stream_id OtherEvent = Inl AttributeError"

text \<open>The \<open>except Exception as e\<close> clause answers 500 with \<open>str(e)\<close>; the inner
  \<open>try ... except: pass\<close> swallows whatever that attempt raises, the failing read of
  \<open>event.stream_id\<close> included.\<close>

definition handle_request :: "env \<Rightarrow> h3_event \<Rightarrow> server \<Rightarrow> server result" where
  "handle_request env event s =
     (case handle_request_try env event s of
        Ok s' \<Rightarrow> Ok s'
      | Raise e s' \<Rightarrow>
          (case event_stream_id event of
             Inl e' \<Rightarrow> Ok s'
           | Inr sid \<Rightarrow>
               (case send_json_response env sid 500
                       (JDict [(ascii ''error'', JStr (ascii ''Internal Server Error'')),
                               (ascii ''message'', JStr (exn_text env e))])
                       s' of
                  Ok s'' \<Rightarrow> Ok s''
                | Raise e' s'' \<Rightarrow> Ok s'')))"

text \<open>The \<open>for\<close> loop of \<open>quic_event_received\<close> over the events the HTTP/3 layer produced.\<close>

fun server_events :: "env \<Rightarrow> h3_event list \<Rightarrow> server \<Rightarrow> server result" where
  "server_events env [] s = Ok s"
| "server_events env (HeadersReceived sid hdrs ended # evs) s =
     (case handle_request env (HeadersReceived sid hdrs ended) s of
        Ok s' \<Rightarrow> server_events env evs s'
      | Raise e s' \<Rightarrow> Raise e s')"
| "server_events env (DataReceived sid payload ended # evs) s = server_events env evs s"
| "server_events env (OtherEvent # evs) s = server_events env evs s"

text \<open>\<open>self._http.handle_event(event)\<close> either raises or returns the list of HTTP/3 events;
  the \<open>try\<close> of \<open>quic_event_received\<close> covers both the call and the loop.\<close>

definition server_quic_event_received ::
  "env \<Rightarrow> exn + h3_event list \<Rightarrow> server \<Rightarrow> server result" where
  "server_quic_event_received env handled s =
     (case handled of
        Inl e \<Rightarrow> Ok s
      | Inr evs \<Rightarrow>
          (case server_events env evs s of
             Ok s' \<Rightarrow> Ok s'
           | Raise e s' \<Rightarrow> Ok s'))"


section \<open>The client: \<open>HttpClient\<close>\<close>

text \<open>
  Each value of \<open>_request_events\<close> is a dictionary object \<open>{'headers': ..., 'data': ...}\<close>.
  The table holds a reference to it, and \<open>set_result\<close> hands the same reference to the
  waiter, so the objects live in a store: \<open>heap\<close> maps an address to the object's current
  contents, \<open>request_events\<close> maps a stream id to an address.  \<open>'headers'\<close> is \<open>None\<close> until
  a \<open>HeadersReceived\<close> event stores \<open>dict(http_event.headers)\<close>.
\<close>

record entry =
  e_headers :: "(bytes \<rightharpoonup> bytes) option"
  e_data :: bytes

text \<open>An \<open>asyncio\<close> future is pending, holds a result (here the address of an entry), or has
  been cancelled; \<open>done()\<close> is true of the last two.\<close>

datatype future = Pending | Resolved nat | Cancelled

fun future_done :: "future \<Rightarrow> bool" where
  "future_done Pending = False"
| "future_done (Resolved a) = True"
| "future_done Cancelled = True"

text \<open>
  \<open>set_result_calls\<close> records every call of \<open>set_result\<close> (stream id, address handed over), as
  \<open>h3_sent\<close> records the calls to the transport.  \<open>clock\<close> is the event loop's time in seconds
  and \<open>deadline\<close> the time at which the \<open>wait_for(waiter, timeout=5.0)\<close> of a stream's \<open>get\<close>
  gives up.
\<close>

record client = h3 +
  heap :: "nat \<Rightarrow> entry"
  next_addr :: nat
  request_events :: "nat \<rightharpoonup> nat"
  request_waiter :: "nat \<rightharpoonup> future"
  set_result_calls :: "(nat \<times> nat) list"
  clock :: real
  deadline :: "nat \<rightharpoonup> real"

definition empty_entry :: entry where
  "empty_entry = \<lparr>e_headers = None, e_data = []\<rparr>"

text \<open>\<open>self._request_events[stream_id] = {'headers': None, 'data': b''}\<close>: a new object.\<close>

definition new_entry :: "nat \<Rightarrow> client \<Rightarrow> client" where
  "new_entry sid s =
     s\<lparr>heap := (heap s)(next_addr s := empty_entry),
       request_events := (request_events s)(sid \<mapsto> next_addr s),
       next_addr := next_addr s + 1\<rparr>"

definition timeout :: real where
  "timeout = 5.0"

text \<open>\<open>get\<close> up to its \<open>await\<close>; \<open>stream_id\<close> is what \<open>get_next_available_stream_id()\<close> returned.
  An exception here leaves \<open>get\<close> before \<open>wait_for\<close> is reached, so no deadline is set.\<close>

definition client_get :: "env \<Rightarrow> nat \<Rightarrow> str \<Rightarrow> client \<Rightarrow> client result" where
  "client_get env sid path s =
     (case encode path of
        Inl e \<Rightarrow> Raise e s
      | Inr p \<Rightarrow>
     (case send_headers env sid
             [('':method'', ''GET''), ('':scheme'', ''https''),
              ('':authority'', ''localhost:4433''), ('':path'', p),
              (''user-agent'', ''Python-HTTP3-Client'')]
             True s of
        Raise e s1 \<Rightarrow> Raise e s1
      | Ok s1 \<Rightarrow>
     (case transmit env
             ((new_entry sid s1)\<lparr>request_waiter := (request_waiter s1)(sid \<mapsto> Pending)\<rparr>) of
        Raise e s2 \<Rightarrow> Raise e s2
      | Ok s2 \<Rightarrow> Ok (s2\<lparr>deadline := (deadline s2)(sid \<mapsto> clock s2 + timeout)\<rparr>))))"

text \<open>\<open>if stream_id not in self._request_events: self._request_events[stream_id] = {...}\<close>\<close>

definition ensure_entry :: "nat \<Rightarrow> client \<Rightarrow> client" where
  "ensure_entry sid s = (case request_events s sid of None \<Rightarrow> new_entry sid s | Some a \<Rightarrow> s)"

text \<open>The address \<open>self._request_events[stream_id]\<close> evaluates to; a missing key is a
  \<open>KeyError\<close>, which cannot arise after \<open>ensure_entry\<close>.\<close>

definition entry_addr :: "client \<Rightarrow> nat \<Rightarrow> exn + nat" where
  "entry_addr s sid = (case request_events s sid of None \<Rightarrow> Inl KeyError | Some a \<Rightarrow> Inr a)"

definition set_headers :: "nat \<Rightarrow> (bytes \<rightharpoonup> bytes) \<Rightarrow> client \<Rightarrow> client" where
  "set_headers a h s = s\<lparr>heap := (heap s)(a := (heap s a)\<lparr>e_headers := Some h\<rparr>)\<rparr>"

definition append_data :: "nat \<Rightarrow> bytes \<Rightarrow> client \<Rightarrow> client" where
  "append_data a d s = s\<lparr>heap := (heap s)(a := (heap s a)\<lparr>e_data := e_data (heap s a) @ d\<rparr>)\<rparr>"

text \<open>\<open>if stream_id in self._request_waiter and not self._request_waiter[stream_id].done():
  self._request_waiter[stream_id].set_result(self._request_events[stream_id])\<close>\<close>

definition maybe_set_result :: "nat \<Rightarrow> nat \<Rightarrow> client \<Rightarrow> client" where
  "maybe_set_result sid a s =
     (case request_waiter s sid of
        None \<Rightarrow> s
      | Some w \<Rightarrow>
          if \<not> future_done w
          then s\<lparr>request_waiter := (request_waiter s)(sid \<mapsto> Resolved a),
                 set_result_calls := set_result_calls s @ [(sid, a)]\<rparr>
          else s)"

fun client_event :: "h3_event \<Rightarrow> client \<Rightarrow> client result" where
  "client_event (HeadersReceived sid hdrs ended) s =
     (case entry_addr (ensure_entry sid s) sid of
        Inl e \<Rightarrow> Raise e (ensure_entry sid s)
      | Inr a \<Rightarrow> Ok (set_headers a (dict hdrs) (ensure_entry sid s)))"
| "client_event (DataReceived sid payload ended) s =
     (case entry_addr (ensure_entry sid s) sid of
        Inl e \<Rightarrow> Raise e (ensure_entry sid s)
      | Inr a \<Rightarrow>
          if ended
          then Ok (maybe_set_result sid a (append_data a payload (ensure_entry sid s)))
          else Ok (append_data a payload (ensure_entry sid s)))"
| "client_event OtherEvent s = Ok s"

fun client_events :: "h3_event list \<Rightarrow> client \<Rightarrow> client result" where
  "client_events [] s = Ok s"
| "client_events (ev # evs) s =
     (case client_event ev s of
        Ok s' \<Rightarrow> client_events evs s'
      | Raise e s' \<Rightarrow> Raise e s')"

text \<open>The client's \<open>quic_event_received\<close> has no \<open>try\<close>: what \<open>handle_event\<close> raises goes on to
  the caller.\<close>

definition client_quic_event_received :: "exn + h3_event list \<Rightarrow> client \<Rightarrow> client result" where
  "client_quic_event_received handled s =
     (case handled of
        Inl e \<Rightarrow> Raise e s
      | Inr evs \<Rightarrow> client_events evs s)"

text \<open>
  The event loop's clock reaching \<open>t\<close>: \<open>wait_for\<close> cancels every awaited waiter that is
  still pending at its deadline, and the \<open>get\<close> that awaited it raises \<open>TimeoutError\<close>.
\<close>

definition expire_waiter :: "real \<Rightarrow> real option \<Rightarrow> future option \<Rightarrow> future option" where
  "expire_waiter t dl w =
     (case w of
        Some Pending \<Rightarrow>
          (case dl of
             Some d \<Rightarrow> if d \<le> t then Some Cancelled else Some Pending
           | None \<Rightarrow> Some Pending)
      | _ \<Rightarrow> w)"

definition advance_clock :: "real \<Rightarrow> client \<Rightarrow> client" where
  "advance_clock t s =
     s\<lparr>clock := max (clock s) t,
       request_waiter := (\<lambda>sid. expire_waiter t (deadline s sid) (request_waiter s sid))\<rparr>"

text \<open>What the \<open>get\<close> of a stream has come to: still suspended in its \<open>await\<close> (\<open>None\<close>),
  returned the entry at an address, or raised.\<close>

definition get_outcome :: "client \<Rightarrow> nat \<Rightarrow> (exn + nat) option" where
  "get_outcome s sid =
     (case deadline s sid of
        None \<Rightarrow> None
      | Some d \<Rightarrow>
          (case request_waiter s sid of
             Some (Resolved a) \<Rightarrow> Some (Inr a)
           | Some Cancelled \<Rightarrow> Some (Inl TimeoutError)
           | _ \<Rightarrow> None))"


section \<open>Vocabulary of the statements\<close>

text \<open>A transport that takes every call, a clock that always reads the same instant, and
  for \<open>str(e)\<close> the text Python gives when byte \<open>0xff\<close> at position 0 cannot be decoded.\<close>

definition quiet_env :: env where
  "quiet_env = \<lparr>accepts = (\<lambda>log op. True),
                 isoformat_now = (\<lambda>n. ascii ''2025-01-01T00:00:00''),
                 exn_text = (\<lambda>e. [0x27] @ ascii ''utf-8'' @ [0x27] @ ascii '' codec can''
                                 @ [0x27] @ ascii ''t decode byte 0xff in position 0: invalid start byte'')\<rparr>"


definition is_ascii :: "str \<Rightarrow> bool" where
  "is_ascii s = list_all (\<lambda>c. c < 0x80) s"

text \<open>The bytes of \<open>str(n).encode()\<close>, and of \<open>s.encode()\<close> for a string of ASCII characters.\<close>

definition int_bytes :: "int \<Rightarrow> bytes" where
  "int_bytes n = map char_of (str_int n)"

definition ascii_bytes :: "str \<Rightarrow> bytes" where
  "ascii_bytes s = map char_of s"

text \<open>The three calls of one framed response: the header block with a \<open>content-length\<close> of
  \<open>n\<close>, the payload with the end-of-stream flag, the flush.\<close>

definition response :: "nat \<Rightarrow> bytes \<Rightarrow> bytes \<Rightarrow> nat \<Rightarrow> bytes \<Rightarrow> wire_op list" where
  "response sid status ctype n payload =
     [SendHeaders sid
        [('':status'', status), (''content-type'', ctype),
         (''content-length'', int_bytes (int n)), (''server'', ''HTTP/3-Python-Server'')]
        False,
      SendData sid payload True,
      Transmit]"

text \<open>The requests of an event list: stream id and header list of each \<open>HeadersReceived\<close>.\<close>

fun requests :: "h3_event list \<Rightarrow> (nat \<times> header_list) list" where
  "requests [] = []"
| "requests (HeadersReceived sid hdrs ended # evs) = (sid, hdrs) # requests evs"
| "requests (DataReceived sid payload ended # evs) = requests evs"
| "requests (OtherEvent # evs) = requests evs"

text \<open>The \<open>:status\<close> values of the header blocks sent on a stream, in order.\<close>

fun statuses_on :: "nat \<Rightarrow> wire_op list \<Rightarrow> bytes list" where
  "statuses_on sid [] = []"
| "statuses_on sid (SendHeaders sid' hdrs fin # ops) =
     (if sid' = sid then [dict_get (dict hdrs) '':status'' []] else []) @ statuses_on sid ops"
| "statuses_on sid (SendData sid' payload fin # ops) = statuses_on sid ops"
| "statuses_on sid (Transmit # ops) = statuses_on sid ops"

fun state_of :: "'s result \<Rightarrow> 's" where
  "state_of (Ok s) = s"
| "state_of (Raise e s) = s"

text \<open>The two JSON bodies the statements name: the one the \<open>except\<close> clause of
  \<open>handle_request\<close> builds from \<open>str(e)\<close>, and the one of \<open>/api/status\<close> for a clock reading.\<close>

definition error_body :: "str \<Rightarrow> str" where
  "error_body msg =
     json_dumps (JDict [(ascii ''error'', JStr (ascii ''Internal Server Error'')),
                        (ascii ''message'', JStr msg)])"

definition status_body :: "str \<Rightarrow> str" where
  "status_body ts =
     json_dumps (JDict [(ascii ''status'', JStr (ascii ''healthy'')),
                        (ascii ''protocol'', JStr (ascii ''HTTP/3'')),
                        (ascii ''timestamp'', JStr ts)])"





text \<open>The bytes of a text that encodes (every text of \<open>route\<close> does).\<close>

definition utf8 :: "str \<Rightarrow> bytes" where
  "utf8 s = (case encode s of Inl e \<Rightarrow> [] | Inr b \<Rightarrow> b)"




definition server_init :: server where
  "server_init = \<lparr>h3_sent = [], clock_reads = 0\<rparr>"


text \<open>A fresh connection: both tables empty, nothing allocated, the clock at zero.\<close>

definition client_init :: client where
  "client_init =
     \<lparr>h3_sent = [], heap = (\<lambda>a. empty_entry), next_addr = 0,
      request_events = Map.empty, request_waiter = Map.empty,
      set_result_calls = [], clock = 0, deadline = Map.empty\<rparr>"

text \<open>Distinct stream ids hold distinct, allocated objects.  It holds of a fresh connection
  and every operation of the client keeps it.\<close>

definition store_ok :: "client \<Rightarrow> bool" where
  "store_ok s =
     ((\<forall>i j a. request_events s i = Some a \<and> request_events s j = Some a \<longrightarrow> i = j)
      \<and> (\<forall>i a. request_events s i = Some a \<longrightarrow> a < next_addr s))"

text \<open>The \<open>'data'\<close> accumulated for a stream (empty while the stream has no entry).\<close>

definition body_of :: "client \<Rightarrow> nat \<Rightarrow> bytes" where
  "body_of s sid = (case request_events s sid of None \<Rightarrow> [] | Some a \<Rightarrow> e_data (heap s a))"

text \<open>The \<open>'headers'\<close> stored for a stream.\<close>

definition headers_of :: "client \<Rightarrow> nat \<Rightarrow> (bytes \<rightharpoonup> bytes) option" where
  "headers_of s sid =
     (case request_events s sid of None \<Rightarrow> None | Some a \<Rightarrow> e_headers (heap s a))"

text \<open>A connection on which \<open>get('/')\<close> has been called once, on stream 0, at clock reading 0.\<close>

definition one_request :: client where
  "one_request = state_of (client_get quiet_env 0 (ascii ''/'') client_init)"

text \<open>The payloads of the \<open>DataReceived\<close> events of a stream, concatenated in delivery order.\<close>

fun fragments :: "nat \<Rightarrow> h3_event list \<Rightarrow> bytes" where
  "fragments sid [] = []"
| "fragments sid (HeadersReceived sid' hdrs ended # evs) = fragments sid evs"
| "fragments sid (DataReceived sid' payload ended # evs) =
     (if sid' = sid then payload else []) @ fragments sid evs"
| "fragments sid (OtherEvent # evs) = fragments sid evs"

text \<open>How many times \<open>set_result\<close> has been called for a stream.\<close>

definition resolutions :: "nat \<Rightarrow> client \<Rightarrow> nat" where
  "resolutions sid s = length (filter (\<lambda>call. fst call = sid) (set_result_calls s))"

text \<open>
  What happens on a client connection, one step at a time: the application calls \<open>get\<close> (the
  part before its \<open>await\<close>), the transport delivers a QUIC event, the loop's clock reaches a
  new reading.  An exception ends the call that raised it, not the connection.
\<close>

datatype step = Get nat str | Received "exn + h3_event list" | Tick real

fun client_step :: "env \<Rightarrow> client \<Rightarrow> step \<Rightarrow> client" where
  "client_step env s (Get sid path) = state_of (client_get env sid path s)"
| "client_step env s (Received handled) = state_of (client_quic_event_received handled s)"
| "client_step env s (Tick t) = advance_clock t s"

definition client_run :: "env \<Rightarrow> step list \<Rightarrow> client \<Rightarrow> client" where
  "client_run env steps s = foldl (client_step env) s steps"

text \<open>Whether an event list carries the end of a stream on a \<open>DataReceived\<close> event.\<close>

fun data_end :: "nat \<Rightarrow> h3_event list \<Rightarrow> bool" where
  "data_end sid [] = False"
| "data_end sid (HeadersReceived sid' hdrs ended # evs) = data_end sid evs"
| "data_end sid (DataReceived sid' payload ended # evs) =
     ((sid' = sid \<and> ended) \<or> data_end sid evs)"
| "data_end sid (OtherEvent # evs) = data_end sid evs"

text \<open>Whether, in a run that starts at clock reading \<open>now\<close>, such an end arrives for the stream
  while the clock is still before \<open>due\<close>, or \<open>get\<close> is called again with the same stream id.\<close>

fun answered_in_time :: "nat \<Rightarrow> real \<Rightarrow> real \<Rightarrow> step list \<Rightarrow> bool" where
  "answered_in_time sid due now [] = False"
| "answered_in_time sid due now (Get sid' path # steps) =
     (sid' = sid \<or> answered_in_time sid due now steps)"
| "answered_in_time sid due now (Received (Inl e) # steps) =
     answered_in_time sid due now steps"
| "answered_in_time sid due now (Received (Inr evs) # steps) =
     ((now < due \<and> data_end sid evs) \<or> answered_in_time sid due now steps)"
| "answered_in_time sid due now (Tick t # steps) =
     answered_in_time sid due (max now t) steps"


section \<open>What is sent for a response\<close>

text \<open>Everything \<open>json.dumps\<close> writes is ASCII, so a JSON body always encodes and its character
  count is its byte count; a body with other characters encodes to more bytes than it has
  characters.\<close>

lemma is_ascii_simps [simp]:
  "is_ascii []" "is_ascii (c # s) = (c < 0x80 \<and> is_ascii s)"
  "is_ascii (s @ t) = (is_ascii s \<and> is_ascii t)"
  by (simp_all add: is_ascii_def)

lemma encode_cps_append:
  "encode_cps (a @ b) =
     (case encode_cps a of None \<Rightarrow> None
      | Some x \<Rightarrow> (case encode_cps b of None \<Rightarrow> None | Some y \<Rightarrow> Some (x @ y)))"
  by (induction a) (auto split: option.splits)

lemma encode_cps_ascii:
  "list_all (\<lambda>c. of_char c < (0x80::nat)) cs \<Longrightarrow> encode_cps (ascii cs) = Some cs"
  by (induction cs) (auto simp: ascii_def encode_cp_def)

lemma encode_cps_is_ascii: "is_ascii s \<Longrightarrow> encode_cps s = Some (map char_of s)"
  by (induction s) (auto simp: encode_cp_def)

lemma encode_is_ascii: "is_ascii s \<Longrightarrow> encode s = Inr (ascii_bytes s)"
  by (simp add: encode_def encode_cps_is_ascii ascii_bytes_def)

lemma is_ascii_str_nat: "is_ascii (str_nat n)"
proof (induction n rule: str_nat.induct)
  case (1 n)
  show ?case
  proof (cases "n < 10")
    case True
    then show ?thesis by (simp add: str_nat.simps [of n] digit_def)
  next
    case False
    then have "is_ascii (str_nat (n div 10))" using "1.IH" by simp
    moreover have "digit (n mod 10) < 0x80" by (simp add: digit_def)
    ultimately show ?thesis using False by (simp add: str_nat.simps [of n])
  qed
qed

lemma is_ascii_str_int: "is_ascii (str_int i)"
  by (simp add: str_int_def is_ascii_str_nat)

lemma encode_str_int: "encode (str_int i) = Inr (int_bytes i)"
  by (simp add: encode_def encode_cps_is_ascii is_ascii_str_int int_bytes_def)

lemma hex_digit_ascii: "d < 16 \<Longrightarrow> hex_digit d < 0x80"
  by (simp add: hex_digit_def)

lemma is_ascii_u_escape: "is_ascii (u_escape n)"
  by (simp add: u_escape_def hex4_def hex_digit_ascii)

lemma is_ascii_escape_char: "is_ascii (escape_char c)"
  by (simp add: escape_char_def is_ascii_u_escape)

lemma is_ascii_concat_escape: "is_ascii (concat (map escape_char s))"
  by (induction s) (simp_all add: is_ascii_escape_char)

lemma is_ascii_basestring: "is_ascii (encode_basestring_ascii s)"
  by (simp add: encode_basestring_ascii_def is_ascii_concat_escape)

lemma is_ascii_newline_indent: "is_ascii (newline_indent level)"
  by (simp add: newline_indent_def is_ascii_def list_all_iff)

lemma is_ascii_iterencode:
  "is_ascii (iterencode level v)"
  "is_ascii (iterencode_list level vs)"
  "is_ascii (iterencode_dict level kvs)"
  by (induction level v and level vs and level kvs
        rule: iterencode_iterencode_list_iterencode_dict.induct)
     (simp_all add: is_ascii_str_int is_ascii_basestring is_ascii_newline_indent ascii_def)

lemma is_ascii_json_dumps: "is_ascii (json_dumps v)"
  by (simp add: json_dumps_def is_ascii_iterencode)

lemma ascii_bytes_ascii: "ascii_bytes (ascii cs) = cs"
  by (simp add: ascii_bytes_def ascii_def)

lemma send_response_accepted:
  assumes acc: "\<And>log op. accepts env log op"
    and ct: "is_ascii ctype"
    and body: "encode body = Inr payload"
  shows "send_response env sid code body ctype s =
           Ok (s\<lparr>h3_sent := h3_sent s
                  @ response sid (int_bytes code) (ascii_bytes ctype) (length body) payload\<rparr>)"
  by (simp add: send_response_def send_response_try_def encode_str_int encode_is_ascii [OF ct]
        body send_headers_def send_data_def transmit_def h3_call_def acc response_def)

lemma send_json_response_accepted:
  assumes acc: "\<And>log op. accepts env log op"
  shows "send_json_response env sid code v s =
           Ok (s\<lparr>h3_sent := h3_sent s
                  @ response sid (int_bytes code) ''application/json''
                      (length (json_dumps v)) (ascii_bytes (json_dumps v))\<rparr>)"
proof -
  have ct: "is_ascii (ascii ''application/json'')" by (simp add: ascii_def)
  have b: "ascii_bytes (ascii ''application/json'') = ''application/json''"
    by (rule ascii_bytes_ascii)
  have e: "encode (json_dumps v) = Inr (ascii_bytes (json_dumps v))"
    by (rule encode_is_ascii [OF is_ascii_json_dumps])
  show ?thesis
    unfolding send_json_response_def
    by (simp add: send_response_accepted [OF acc ct e] b)
qed

lemma send_response_never_raises: "\<exists>s'. send_response env sid code body ctype s = Ok s'"
  by (simp add: send_response_def split: result.splits)

lemma send_json_response_never_raises: "\<exists>s'. send_json_response env sid code v s = Ok s'"
  by (simp add: send_json_response_def send_response_never_raises)

lemma int_bytes_200: "int_bytes 200 = ''200''"
  by (simp add: int_bytes_def str_int_def str_nat.simps digit_def char_of_eq_iff)
lemma int_bytes_500: "int_bytes 500 = ''500''"
  by (simp add: int_bytes_def str_int_def str_nat.simps digit_def char_of_eq_iff)

lemma encode_homepage: "\<exists>payload. encode get_homepage = Inr payload \<and> length payload = 1152"
  unfolding get_homepage_def encode_def
  by (simp add: encode_cps_append encode_cps_ascii encode_cp_def)

lemma length_homepage: "length get_homepage = 1144"
  unfolding get_homepage_def by (simp add: ascii_def)


section \<open>Routing one request\<close>

lemma decode_root: "decode ''/'' = Inr (ascii ''/'')"
  by (simp add: decode_def ascii_def)

lemma decode_GET: "decode ''GET'' = Inr (ascii ''GET'')"
  by (simp add: decode_def ascii_def)

lemma decode_api_status: "decode ''/api/status'' = Inr (ascii ''/api/status'')"
  by (simp add: decode_def ascii_def)

lemma status_not_root: "ascii ''/api/status'' \<noteq> ascii ''/''"
  by (simp add: ascii_def)

lemma is_ascii_text_html: "is_ascii (ascii ''text/html'')"
  by (simp add: ascii_def)

lemma handle_request_never_raises: "\<exists>s'. handle_request env ev s = Ok s'"
  by (simp add: handle_request_def split: result.splits sum.splits)

lemma handle_request_root:
  assumes acc: "\<And>log op. accepts env log op"
    and p: "decode (dict_get (dict hdrs) '':path'' ''/'') = Inr (ascii ''/'')"
    and m: "decode (dict_get (dict hdrs) '':method'' ''GET'') = Inr method"
    and h: "encode get_homepage = Inr payload"
  shows "handle_request env (HeadersReceived sid hdrs ended) s =
           Ok (s\<lparr>h3_sent := h3_sent s
                  @ response sid ''200'' ''text/html'' (length get_homepage) payload\<rparr>)"
  by (simp add: handle_request_def p m
        send_response_accepted [OF acc is_ascii_text_html h] int_bytes_200 ascii_bytes_ascii)

lemma handle_request_raise:
  assumes acc: "\<And>log op. accepts env log op"
    and r: "handle_request_try env ev s = Raise e s'"
    and i: "event_stream_id ev = Inr sid"
  shows "handle_request env ev s =
           Ok (s'\<lparr>h3_sent := h3_sent s'
                  @ response sid ''500'' ''application/json''
                      (length (json_dumps (JDict [(ascii ''error'', JStr (ascii ''Internal Server Error'')),
                          (ascii ''message'', JStr (exn_text env e))])))
                      (ascii_bytes (json_dumps (JDict [(ascii ''error'', JStr (ascii ''Internal Server Error'')),
                          (ascii ''message'', JStr (exn_text env e))])))\<rparr>)"
  by (simp add: handle_request_def r i send_json_response_accepted [OF acc] int_bytes_500)

lemma handle_request_try_raise_state:
  "handle_request_try env ev s = Raise e s' \<Longrightarrow> s' = s"
proof (cases ev)
  case (HeadersReceived sid hdrs ended)
  assume r: "handle_request_try env ev s = Raise e s'"
  obtain a where a: "send_response env sid 200 get_homepage (ascii ''text/html'') s = Ok a"
    using send_response_never_raises by blast
  have j: "\<And>c v t. \<exists>b. send_json_response env sid c v t = Ok b"
    using send_json_response_never_raises by blast
  show ?thesis
    using r j unfolding HeadersReceived
    apply (simp add: a split: sum.splits if_splits)
    apply (metis result.distinct(1))+
    done
qed auto

lemma handle_request_responds:
  assumes acc: "\<And>log op. accepts env log op"
  shows "\<exists>s' status ctype n payload.
           handle_request env (HeadersReceived sid hdrs ended) s = Ok s' \<and>
           h3_sent s' = h3_sent s @ response sid status ctype n payload"
proof (cases "handle_request_try env (HeadersReceived sid hdrs ended) s")
  case (Raise e s')
  have "s' = s" using handle_request_try_raise_state [OF Raise] .
  then show ?thesis
    using handle_request_raise [OF acc Raise event_stream_id.simps(1)] by auto
next
  case (Ok s')
  obtain payload where h: "encode get_homepage = Inr payload"
    using encode_homepage by blast
  have "\<exists>status ctype n payload. h3_sent s' = h3_sent s @ response sid status ctype n payload"
    using Ok
    apply (auto simp: send_response_accepted [OF acc is_ascii_text_html h]
          send_json_response_accepted [OF acc] split: sum.splits if_splits)
    apply blast+
    done
  then show ?thesis
    by (simp add: handle_request_def Ok del: handle_request_try.simps)
qed


lemma quiet_env_accepts: "accepts quiet_env ops op"
  by (simp add: quiet_env_def)

lemma int_bytes_1144: "int_bytes 1144 = ''1144''"
  by (simp add: int_bytes_def str_int_def str_nat.simps digit_def char_of_eq_iff)

text \<open>
  C1.  The claim: the \<open>content-length\<close> header equals the number of bytes sent as the body.
  For the request \<open>GET /\<close> the server sends the home page, whose text holds three
  characters outside ASCII: the header announces 1144 (the number of characters), the
  payload handed to \<open>send_data\<close> has 1152 bytes.
\<close>

theorem homepage_content_length_counts_characters:
  "\<exists>payload.
     handle_request quiet_env
       (HeadersReceived 0 [('':method'', ''GET''), ('':path'', ''/'')] True) server_init
     = Ok \<lparr>h3_sent =
              [SendHeaders 0
                 [('':status'', ''200''), (''content-type'', ''text/html''),
                  (''content-length'', ''1144''), (''server'', ''HTTP/3-Python-Server'')]
                 False,
               SendData 0 payload True,
               Transmit],
            clock_reads = 0\<rparr>
     \<and> encode get_homepage = Inr payload
     \<and> length payload = 1152"
proof -
  obtain payload where h: "encode get_homepage = Inr payload" and l: "length payload = 1152"
    using encode_homepage by blast
  have p: "decode (dict_get (dict [('':method'', ''GET''), ('':path'', ''/'')]) '':path'' ''/'')
             = Inr (ascii ''/'')"
    by (simp add: dict_def dict_get_def decode_root)
  have m: "decode (dict_get (dict [('':method'', ''GET''), ('':path'', ''/'')]) '':method'' ''GET'')
             = Inr (ascii ''GET'')"
    by (simp add: dict_def dict_get_def decode_GET)
  have "handle_request quiet_env
          (HeadersReceived 0 [('':method'', ''GET''), ('':path'', ''/'')] True) server_init
        = Ok (server_init\<lparr>h3_sent := h3_sent server_init
                 @ response 0 ''200'' ''text/html'' (length get_homepage) payload\<rparr>)"
    by (rule handle_request_root [OF quiet_env_accepts p m h])
  then show ?thesis
    using h l by (simp add: server_init_def response_def length_homepage int_bytes_1144)
qed


section \<open>The text of the JSON bodies\<close>

lemma newline_indent_0: "newline_indent 0 = [0x0A]"
  by (simp add: newline_indent_def)

lemma newline_indent_1: "newline_indent (Suc 0) = [0x0A, 0x20, 0x20]"
  by (simp add: newline_indent_def numeral_2_eq_2)

lemma basestring_literal:
  "list_all (\<lambda>c. 0x20 \<le> (of_char c :: nat) \<and> (of_char c :: nat) \<le> 0x7E
        \<and> (of_char c :: nat) \<noteq> 0x22 \<and> (of_char c :: nat) \<noteq> 0x5C) cs
   \<Longrightarrow> encode_basestring_ascii (ascii cs) = [0x22] @ ascii cs @ [0x22]"
  by (induction cs) (auto simp: encode_basestring_ascii_def ascii_def escape_char_def)


lemma status_text:
  \<open>json_dumps (JDict [(ascii ''status'', JStr (ascii ''healthy'')),
                      (ascii ''protocol'', JStr (ascii ''HTTP/3'')),
                      (ascii ''timestamp'', JStr ts)])
   = ascii ''{\<newline>  "status": "healthy",\<newline>  "protocol": "HTTP/3",\<newline>  "timestamp": ''
     @ encode_basestring_ascii ts @ ascii ''\<newline>}''\<close>
  by (simp add: json_dumps_def newline_indent_0 newline_indent_1 basestring_literal)
     (simp add: ascii_def)


section \<open>Reading an escaped string back\<close>

text \<open>\<open>scanstring\<close> accepts whatever \<open>encode_basestring_ascii\<close> writes and stops at its closing
  quote.\<close>

lemma unhex_hex_digit: "d < 16 \<Longrightarrow> unhex (hex_digit d) = Some d"
  by (auto simp: unhex_def hex_digit_def)

lemma hex4_value:
  fixes n :: nat
  assumes "n < 0x10000"
  shows "((n div 0x1000 mod 0x10 * 0x10 + n div 0x100 mod 0x10) * 0x10 + n div 0x10 mod 0x10) * 0x10
           + n mod 0x10 = n"
proof -
  have f1: "n = n div 16 * 16 + n mod 16" by simp
  have "n div 16 div 16 = n div 256" by (simp add: div_mult2_eq [symmetric])
  then have f2: "n div 16 = n div 256 * 16 + n div 16 mod 16"
    using div_mult_mod_eq [of "n div 16" 16] by simp
  have "n div 256 div 16 = n div 4096" by (simp add: div_mult2_eq [symmetric])
  then have f3: "n div 256 = n div 4096 * 16 + n div 256 mod 16"
    using div_mult_mod_eq [of "n div 256" 16] by simp
  have "n div 4096 < 16" using assms by simp
  then have f4: "n div 4096 mod 16 = n div 4096" by simp
  show ?thesis
    using f1 f2 f3 f4 by simp
qed

lemma unhex4_hex4: "n < 0x10000 \<Longrightarrow> unhex4 (hex4 n) = Some n"
  using hex4_value [of n]
  by (simp add: unhex4_def hex4_def unhex_hex_digit)

lemma length_hex4: "length (hex4 n) = 4"
  by (simp add: hex4_def)


lemma scan_plain:
  "0x20 \<le> c \<Longrightarrow> c \<noteq> 0x22 \<Longrightarrow> c \<noteq> 0x5C \<Longrightarrow>
     scanstring (c # r) = cons_char c (scanstring r)"
  by (simp add: scanstring.simps)

lemma scan_simple:
  "e \<noteq> 0x75 \<Longrightarrow> unescape e = Some ch \<Longrightarrow>
     scanstring (0x5C # e # r) = cons_char ch (scanstring r)"
  by (simp add: scanstring.simps)

lemma scan_u:
  assumes "n < 0x10000" and "\<not> (0xD800 \<le> n \<and> n \<le> 0xDBFF)"
  shows "scanstring (u_escape n @ r) = cons_char n (scanstring r)"
  using assms
  by (auto simp: u_escape_def scanstring.simps length_hex4 unhex4_hex4)

lemma scan_high:
  assumes "0xD800 \<le> n" and "n \<le> 0xDBFF"
  shows "scanstring (u_escape n @ r) =
           (case peek_u r of
              None \<Rightarrow> None
            | Some None \<Rightarrow> cons_char n (scanstring r)
            | Some (Some uni2) \<Rightarrow>
                if 0xDC00 \<le> uni2 \<and> uni2 \<le> 0xDFFF
                then cons_char (0x10000 + (n - 0xD800) * 0x400 + (uni2 - 0xDC00))
                       (scanstring (drop 6 r))
                else cons_char n (scanstring r))"
proof -
  have n: "n < 0x10000" using assms by simp
  show ?thesis
    using assms
    by (simp add: u_escape_def scanstring.simps length_hex4 unhex4_hex4 [OF n]
          split: option.splits)
qed

lemma peek_u_escape: "m < 0x10000 \<Longrightarrow> peek_u (u_escape m @ r) = Some (Some m)"
  by (simp add: peek_u_def u_escape_def length_hex4 unhex4_hex4)

lemma peek_other: "c \<noteq> 0x5C \<Longrightarrow> peek_u (c # r) = Some None"
  by (simp add: peek_u_def)

lemma peek_simple: "e \<noteq> 0x75 \<Longrightarrow> peek_u (0x5C # e # r) = Some None"
  by (simp add: peek_u_def numeral_2_eq_2)

lemma drop_u_escape: "drop 6 (u_escape m @ r) = r"
  by (simp add: u_escape_def length_hex4)

text \<open>The four shapes of an escaped character.\<close>

lemma escape_char_shapes:
  "(escape_char c = [c] \<and> 0x20 \<le> c \<and> c \<noteq> 0x22 \<and> c \<noteq> 0x5C)
   \<or> (\<exists>e. escape_char c = [0x5C, e] \<and> e \<noteq> 0x75 \<and> unescape e = Some c)
   \<or> (escape_char c = u_escape c \<and> c < 0x10000)
   \<or> (\<exists>hi lo. escape_char c = u_escape hi @ u_escape lo
         \<and> 0xD800 \<le> hi \<and> hi \<le> 0xDBFF \<and> 0xDC00 \<le> lo \<and> lo \<le> 0xDFFF)"
proof -
  have hi: "0xD800 + (c - 0x10000) div 0x400 mod 0x400 \<le> (0xDBFF::nat)"
  proof -
    have "(c - 0x10000) div 0x400 mod 0x400 < (0x400::nat)" by simp
    then show ?thesis by linarith
  qed
  have lo: "0xDC00 + (c - 0x10000) mod 0x400 \<le> (0xDFFF::nat)"
  proof -
    have "(c - 0x10000) mod 0x400 < (0x400::nat)" by simp
    then show ?thesis by linarith
  qed
  consider (simple) "c = 0x5C \<or> c = 0x22 \<or> c = 0x08 \<or> c = 0x0C \<or> c = 0x0A
        \<or> c = 0x0D \<or> c = 0x09"
    | (plain) "0x20 \<le> c" "c \<le> 0x7E" "c \<noteq> 0x5C" "c \<noteq> 0x22"
    | (small) "\<not> (0x20 \<le> c \<and> c \<le> 0x7E)" "c < 0x10000" "c \<noteq> 0x08" "c \<noteq> 0x0C"
        "c \<noteq> 0x0A" "c \<noteq> 0x0D" "c \<noteq> 0x09"
    | (big) "\<not> c < 0x10000"
    by linarith
  then show ?thesis
  proof cases
    case simple
    then have "\<exists>e. escape_char c = [0x5C, e] \<and> e \<noteq> 0x75 \<and> unescape e = Some c"
      by (auto simp: escape_char_def unescape_def)
    then show ?thesis by blast
  next
    case plain
    then have "escape_char c = [c]" by (simp add: escape_char_def)
    then show ?thesis using plain by simp
  next
    case small
    then have "escape_char c = u_escape c" by (auto simp: escape_char_def)
    then show ?thesis using small by simp
  next
    case big
    then have "escape_char c = u_escape (0xD800 + (c - 0x10000) div 0x400 mod 0x400)
           @ u_escape (0xDC00 + (c - 0x10000) mod 0x400)"
      by (auto simp: escape_char_def)
    moreover have "(0xD800::nat) \<le> 0xD800 + (c - 0x10000) div 0x400 mod 0x400"
      by (rule le_add1)
    moreover have "(0xDC00::nat) \<le> 0xDC00 + (c - 0x10000) mod 0x400"
      by (rule le_add1)
    ultimately have "\<exists>hi lo. escape_char c = u_escape hi @ u_escape lo
         \<and> 0xD800 \<le> hi \<and> hi \<le> 0xDBFF \<and> 0xDC00 \<le> lo \<and> lo \<le> 0xDFFF"
      using hi lo by blast
    then show ?thesis by blast
  qed
qed


lemma cons_char_ok: "\<exists>t. r = Some (t, rest) \<Longrightarrow> \<exists>t. cons_char c r = Some (t, rest)"
  by (auto simp: cons_char_def)

text \<open>What the scanner sees after a high surrogate when the text goes on with an escaped
  string: no \<open>\u\<close> escape, the escape of a next character below U+10000, or the first half of
  a pair.\<close>

lemma peek_escaped:
  "peek_u (concat (map escape_char cs) @ 0x22 # rest) = Some None
   \<or> (\<exists>c2 cs'. cs = c2 # cs' \<and> escape_char c2 = u_escape c2
         \<and> peek_u (concat (map escape_char cs) @ 0x22 # rest) = Some (Some c2))
   \<or> (\<exists>hi. hi \<le> 0xDBFF
         \<and> peek_u (concat (map escape_char cs) @ 0x22 # rest) = Some (Some hi))"
proof (cases cs)
  case Nil
  then show ?thesis by (simp add: peek_other)
next
  case (Cons c2 cs')
  consider (plain) "escape_char c2 = [c2]" "c2 \<noteq> 0x5C"
    | (simple) e where "escape_char c2 = [0x5C, e]" "e \<noteq> 0x75"
    | (small) "escape_char c2 = u_escape c2" "c2 < 0x10000"
    | (pair) hi lo where "escape_char c2 = u_escape hi @ u_escape lo" "hi \<le> 0xDBFF"
    using escape_char_shapes [of c2] by blast
  then show ?thesis
  proof cases
    case plain
    then show ?thesis unfolding Cons by (simp add: peek_other)
  next
    case simple
    then show ?thesis unfolding Cons by (simp add: peek_simple)
  next
    case small
    then show ?thesis unfolding Cons by (simp add: peek_u_escape)
  next
    case pair
    then have "hi < 0x10000" by simp
    then have "peek_u (concat (map escape_char (c2 # cs')) @ 0x22 # rest) = Some (Some hi)"
      using pair(1) peek_u_escape [of hi] by simp
    then show ?thesis unfolding Cons using pair(2) by blast
  qed
qed

lemma scan_step:
  assumes tail: "\<exists>t. scanstring (concat (map escape_char cs) @ 0x22 # rest) = Some (t, rest)"
    and tail2: "\<And>c2 cs'. cs = c2 # cs' \<Longrightarrow>
                  \<exists>t. scanstring (concat (map escape_char cs') @ 0x22 # rest) = Some (t, rest)"
  shows "\<exists>t. scanstring (escape_char c @ concat (map escape_char cs) @ 0x22 # rest)
               = Some (t, rest)"
proof -
  let ?E = "concat (map escape_char cs) @ 0x22 # rest"
  have high_case: "\<exists>t. scanstring (u_escape n @ ?E) = Some (t, rest)"
    if n: "0xD800 \<le> n" "n \<le> 0xDBFF" for n
  proof -
    consider (none) "peek_u ?E = Some None"
      | (follow) c2 cs' where "cs = c2 # cs'" "escape_char c2 = u_escape c2"
          "peek_u ?E = Some (Some c2)"
      | (half) hi where "hi \<le> 0xDBFF" "peek_u ?E = Some (Some hi)"
      using peek_escaped [of cs rest] by blast
    then show ?thesis
    proof cases
      case none
      then show ?thesis
        using scan_high [OF n, of ?E] cons_char_ok [OF tail] by simp
    next
      case follow
      have "?E = u_escape c2 @ (concat (map escape_char cs') @ 0x22 # rest)"
        using follow(1,2) by simp
      then have d: "drop 6 ?E = concat (map escape_char cs') @ 0x22 # rest"
        by (simp only: drop_u_escape)
      show ?thesis
        using scan_high [OF n, of ?E] follow(3) d cons_char_ok [OF tail]
          cons_char_ok [OF tail2 [OF follow(1)]]
        by (simp del: drop_append)
    next
      case half
      then show ?thesis
        using scan_high [OF n, of ?E] cons_char_ok [OF tail] by simp
    qed
  qed
  consider (plain) "escape_char c = [c]" "0x20 \<le> c" "c \<noteq> 0x22" "c \<noteq> 0x5C"
    | (simple) e where "escape_char c = [0x5C, e]" "e \<noteq> 0x75" "unescape e = Some c"
    | (small) "escape_char c = u_escape c" "c < 0x10000"
    | (pair) hi lo where "escape_char c = u_escape hi @ u_escape lo"
        "0xD800 \<le> hi" "hi \<le> 0xDBFF" "0xDC00 \<le> lo" "lo \<le> 0xDFFF"
    using escape_char_shapes [of c] by blast
  then show ?thesis
  proof cases
    case plain
    then show ?thesis
      using scan_plain [of c ?E] cons_char_ok [OF tail] by simp
  next
    case simple
    then show ?thesis
      using scan_simple [of e c ?E] cons_char_ok [OF tail] by simp
  next
    case small
    show ?thesis
    proof (cases "0xD800 \<le> c \<and> c \<le> 0xDBFF")
      case True
      then show ?thesis using high_case [of c] small(1) by simp
    next
      case False
      then show ?thesis
        using scan_u [OF small(2) False, of ?E] small(1) cons_char_ok [OF tail] by simp
    qed
  next
    case pair
    have lo: "lo < 0x10000" using pair(5) by simp
    have p: "peek_u (u_escape lo @ ?E) = Some (Some lo)"
      using peek_u_escape [OF lo] .
    have "scanstring (u_escape hi @ u_escape lo @ ?E) =
            cons_char (0x10000 + (hi - 0xD800) * 0x400 + (lo - 0xDC00)) (scanstring ?E)"
      using scan_high [OF pair(2,3), of "u_escape lo @ ?E"] p pair(4,5)
      by (simp add: drop_u_escape del: drop_append)
    then show ?thesis
      using pair(1) cons_char_ok [OF tail] by simp
  qed
qed

lemma scan_escaped:
  "\<exists>t. scanstring (concat (map escape_char ts) @ 0x22 # rest) = Some (t, rest)"
proof (induction ts rule: induct_list012)
  case 1
  show ?case by (simp add: scanstring.simps)
next
  case (2 c)
  have e: "\<exists>t. scanstring (concat (map escape_char []) @ 0x22 # rest) = Some (t, rest)"
    by (simp add: scanstring.simps)
  show ?case
    using scan_step [OF e, of c] by simp
next
  case (3 c c2 cs)
  have "\<exists>t. scanstring (escape_char c @ concat (map escape_char (c2 # cs)) @ 0x22 # rest)
               = Some (t, rest)"
    using scan_step [OF "3.IH"(2), of c] "3.IH"(1) by blast
  then show ?case by simp
qed


lemma decode_cps_ascii: "is_ascii s \<Longrightarrow> decode_cps s = Some s"
  by (induction s) simp_all

lemma decode_ascii_bytes: "is_ascii s \<Longrightarrow> decode (ascii_bytes s) = Inr s"
proof -
  assume a: "is_ascii s"
  have "map of_char (map char_of s) = s"
    using a by (induction s) simp_all
  then show ?thesis
    using a by (simp add: decode_def ascii_bytes_def decode_cps_ascii)
qed

lemma loads_status:
  "\<exists>t. json_loads (status_body ts) =
         Some (JDict [(ascii ''status'', JStr (ascii ''healthy'')),
                      (ascii ''protocol'', JStr (ascii ''HTTP/3'')),
                      (ascii ''timestamp'', JStr t)])"
proof -
  obtain t where sc: "scanstring (concat (map escape_char ts) @ 0x22 # [0x0A, 0x7D])
                        = Some (t, [0x0A, 0x7D])"
    using scan_escaped by blast
  let ?text = "status_body ts"
  have body_eq: \<open>?text =
     ascii ''{\<newline>  "status": "healthy",\<newline>  "protocol": "HTTP/3",\<newline>  "timestamp": ''
     @ encode_basestring_ascii ts @ ascii ''\<newline>}''\<close>
    unfolding status_body_def by (rule status_text)
  have "6 \<le> length ?text"
    unfolding body_eq by (simp add: ascii_def)
  then obtain n where n: "length ?text = 6 + n"
    using le_Suc_ex by blast
  have fuel: "Suc (length ?text) = Suc (Suc (Suc (Suc (Suc (Suc (Suc n))))))"
    using n by simp
  have "parse_value (Suc (Suc (Suc (Suc (Suc (Suc (Suc n))))))) (skip_ws ?text) =
          Some (JDict [(ascii ''status'', JStr (ascii ''healthy'')),
                       (ascii ''protocol'', JStr (ascii ''HTTP/3'')),
                       (ascii ''timestamp'', JStr t)], [])"
    unfolding body_eq
    by (simp add: skip_ws_def is_ws_def scanstring.simps cons_char_def ascii_def
          encode_basestring_ascii_def sc)
  then have "json_loads ?text =
          Some (JDict [(ascii ''status'', JStr (ascii ''healthy'')),
                       (ascii ''protocol'', JStr (ascii ''HTTP/3'')),
                       (ascii ''timestamp'', JStr t)])"
    unfolding json_loads_def fuel by (simp add: skip_ws_def)
  then show ?thesis by blast
qed



section \<open>The server loop\<close>

lemma handle_request_status:
  assumes acc: "\<And>ops op. accepts env ops op"
    and p: "decode (dict_get (dict hdrs) '':path'' ''/'') = Inr (ascii ''/api/status'')"
    and m: "decode (dict_get (dict hdrs) '':method'' ''GET'') = Inr method"
  shows "handle_request env (HeadersReceived sid hdrs ended) s =
           Ok (s\<lparr>clock_reads := clock_reads s + 1,
                 h3_sent := h3_sent s
                  @ response sid ''200'' ''application/json''
                      (length (json_dumps (JDict [(ascii ''status'', JStr (ascii ''healthy'')),
                          (ascii ''protocol'', JStr (ascii ''HTTP/3'')),
                          (ascii ''timestamp'', JStr (isoformat_now env (clock_reads s)))])))
                      (ascii_bytes (json_dumps (JDict [(ascii ''status'', JStr (ascii ''healthy'')),
                          (ascii ''protocol'', JStr (ascii ''HTTP/3'')),
                          (ascii ''timestamp'', JStr (isoformat_now env (clock_reads s)))])))\<rparr>)"
  by (simp add: handle_request_def p m status_not_root
        send_json_response_accepted [OF acc] int_bytes_200)


lemma server_events_never_raises: "\<exists>s'. server_events env evs s = Ok s'"
proof (induction evs arbitrary: s)
  case Nil
  show ?case by simp
next
  case (Cons ev evs)
  obtain s1 where h: "handle_request env ev s = Ok s1"
    using handle_request_never_raises by blast
  show ?case
    using Cons.IH [of s1] Cons.IH [of s] h by (cases ev) simp_all
qed


lemma statuses_on_append:
  "statuses_on sid (ops @ ops') = statuses_on sid ops @ statuses_on sid ops'"
  by (induction sid ops rule: statuses_on.induct) simp_all

lemma statuses_on_response:
  "statuses_on sid' (response sid status ctype n payload) = (if sid = sid' then [status] else [])"
  by (simp add: response_def dict_def dict_get_def)

text \<open>
  C6.  The claim: a request without \<open>:path\<close> is answered with a 4xx status.
  The code reads \<open>headers.get(b':path', b'/')\<close>, so such a request is the request for
  \<open>/\<close>: here it is answered with status 200 and the home page.
\<close>

theorem missing_path_answered_200:
  "dict [('':method'', ''GET'')] '':path'' = None \<and>
   statuses_on 0
     (h3_sent (state_of
        (handle_request quiet_env (HeadersReceived 0 [('':method'', ''GET'')] True) server_init)))
   = [''200'']"
proof -
  obtain payload where h: "encode get_homepage = Inr payload"
    using encode_homepage by blast
  have p: "decode (dict_get (dict [('':method'', ''GET'')]) '':path'' ''/'') = Inr (ascii ''/'')"
    by (simp add: dict_def dict_get_def decode_root)
  have m: "decode (dict_get (dict [('':method'', ''GET'')]) '':method'' ''GET'')
             = Inr (ascii ''GET'')"
    by (simp add: dict_def dict_get_def decode_GET)
  have "handle_request quiet_env (HeadersReceived 0 [('':method'', ''GET'')] True) server_init
        = Ok (server_init\<lparr>h3_sent := h3_sent server_init
                 @ response 0 ''200'' ''text/html'' (length get_homepage) payload\<rparr>)"
    by (rule handle_request_root [OF quiet_env_accepts p m h])
  then show ?thesis
    by (simp add: server_init_def statuses_on_response dict_def)
qed

text \<open>
  C6, amended.  For every request whose header set lacks \<open>:path\<close>, on a transport that
  takes the calls: the responder answers on the same stream with status 200 and the home
  page when the \<open>:method\<close> value (\<open>GET\<close> if absent) is valid UTF-8, and with status 500 and
  the JSON error body otherwise.  It returns normally in either case.
\<close>

theorem missing_path_served_as_root:
  assumes "\<And>ops op. accepts env ops op"
    and "dict hdrs '':path'' = None"
  shows "\<exists>payload. encode get_homepage = Inr payload \<and>
           handle_request env (HeadersReceived sid hdrs ended) s =
             Ok (s\<lparr>h3_sent := h3_sent s @
                   (case decode (dict_get (dict hdrs) '':method'' ''GET'') of
                      Inl e \<Rightarrow>
                        response sid ''500'' ''application/json''
                          (length (error_body (exn_text env e)))
                          (ascii_bytes (error_body (exn_text env e)))
                    | Inr method \<Rightarrow>
                        response sid ''200'' ''text/html'' (length get_homepage) payload)\<rparr>)"
proof -
  obtain payload where h: "encode get_homepage = Inr payload"
    using encode_homepage by blast
  have p: "decode (dict_get (dict hdrs) '':path'' ''/'') = Inr (ascii ''/'')"
    using assms(2) by (simp add: dict_get_def decode_root)
  show ?thesis
  proof (cases "decode (dict_get (dict hdrs) '':method'' ''GET'')")
    case (Inr m)
    show ?thesis
      using handle_request_root [OF assms(1) p Inr h, of sid ended s] h Inr by auto
  next
    case (Inl e)
    have r: "handle_request_try env (HeadersReceived sid hdrs ended) s = Raise e s"
      by (simp add: p Inl)
    show ?thesis
      using handle_request_raise [OF assms(1) r event_stream_id.simps(1)] h Inl
      by (auto simp: error_body_def)
  qed
qed

theorem missing_path_served_as_root_witness:
  "\<exists>payload. encode get_homepage = Inr payload \<and>
     handle_request quiet_env (HeadersReceived 4 [('':method'', ''POST'')] False) server_init =
       Ok (server_init\<lparr>h3_sent :=
             response 4 ''200'' ''text/html'' (length get_homepage) payload\<rparr>)"
proof -
  have d: "dict [('':method'', ''POST'')] '':path'' = None"
    by (simp add: dict_def)
  have m: "decode (dict_get (dict [('':method'', ''POST'')]) '':method'' ''GET'')
             = Inr (ascii ''POST'')"
    by (simp add: dict_def dict_get_def decode_def ascii_def)
  show ?thesis
    using missing_path_served_as_root [OF quiet_env_accepts d, of 4 False server_init]
    by (simp add: m server_init_def)
qed


section \<open>The wire as a function of the requests\<close>


lemma utf8_ascii: "is_ascii s \<Longrightarrow> utf8 s = ascii_bytes s"
  by (simp add: utf8_def encode_is_ascii)

lemma utf8_json [simp]: "utf8 (json_dumps v) = ascii_bytes (json_dumps v)"
  by (rule utf8_ascii [OF is_ascii_json_dumps])






section \<open>Exceptions while a request is handled\<close>


















section \<open>Request bodies and end-of-stream flags\<close>




section \<open>The client under events\<close>

lemmas client_defs =
  new_entry_def ensure_entry_def entry_addr_def set_headers_def append_data_def
  maybe_set_result_def

lemma client_event_never_raises: "\<exists>s'. client_event ev s = Ok s'"
  by (cases ev) (auto simp: client_defs split: option.splits)

lemma client_events_never_raises: "\<exists>s'. client_events evs s = Ok s'"
proof (induction evs arbitrary: s)
  case Nil
  show ?case by simp
next
  case (Cons ev evs)
  obtain s1 where "client_event ev s = Ok s1"
    using client_event_never_raises by blast
  then show ?case using Cons.IH [of s1] by simp
qed

lemma store_ok_client_event:
  assumes "store_ok s" and "client_event ev s = Ok s'"
  shows "store_ok s'"
proof (cases ev)
  case (HeadersReceived sid hdrs ended)
  show ?thesis
  proof (cases "request_events s sid")
    case None
    then show ?thesis
      using assms unfolding HeadersReceived
      by (auto simp: client_defs store_ok_def split: if_splits) fastforce+
  next
    case (Some a)
    then show ?thesis
      using assms unfolding HeadersReceived
      by (auto simp: client_defs store_ok_def)
  qed
next
  case (DataReceived sid payload ended)
  show ?thesis
  proof (cases "request_events s sid")
    case None
    then show ?thesis
      using assms unfolding DataReceived
      by (auto simp: client_defs store_ok_def split: if_splits option.splits) fastforce+
  next
    case (Some a)
    then show ?thesis
      using assms unfolding DataReceived
      by (auto simp: client_defs store_ok_def split: if_splits option.splits)
  qed
next
  case OtherEvent
  then show ?thesis using assms by simp
qed

lemma store_ok_inj:
  "store_ok s \<Longrightarrow> request_events s i = Some a \<Longrightarrow> request_events s j = Some a \<Longrightarrow> i = j"
  unfolding store_ok_def by blast

lemma store_ok_fresh:
  "store_ok s \<Longrightarrow> request_events s i = Some a \<Longrightarrow> a \<noteq> next_addr s"
  unfolding store_ok_def by fastforce

lemma body_of_client_event:
  assumes "store_ok s" and "client_event ev s = Ok s'"
  shows "body_of s' i = body_of s i @ fragments i [ev]"
proof (cases ev)
  case (HeadersReceived sid hdrs ended)
  show ?thesis
  proof (cases "request_events s sid")
    case None
    then show ?thesis
      using assms unfolding HeadersReceived
      by (cases "i = sid")
         (auto simp: client_defs body_of_def empty_entry_def split: option.splits
            dest: store_ok_fresh store_ok_inj)
  next
    case (Some a)
    then show ?thesis
      using assms unfolding HeadersReceived
      by (cases "i = sid")
         (auto simp: client_defs body_of_def split: option.splits
            dest: store_ok_fresh store_ok_inj)
  qed
next
  case (DataReceived sid payload ended)
  show ?thesis
  proof (cases "request_events s sid")
    case None
    then show ?thesis
      using assms unfolding DataReceived
      by (cases "i = sid")
         (auto simp: client_defs body_of_def empty_entry_def
            split: option.splits if_splits
            dest: store_ok_fresh store_ok_inj)
  next
    case (Some a)
    then show ?thesis
      using assms unfolding DataReceived
      by (cases "i = sid")
         (auto simp: client_defs body_of_def split: option.splits if_splits
            dest: store_ok_fresh store_ok_inj)
  qed
next
  case OtherEvent
  then show ?thesis using assms by simp
qed


lemma fragments_Cons: "fragments i (ev # evs) = fragments i [ev] @ fragments i evs"
  by (cases ev) simp_all

lemma client_events_bodies:
  assumes "store_ok s"
  shows "\<exists>s'. client_events evs s = Ok s' \<and> store_ok s'
           \<and> (\<forall>i. body_of s' i = body_of s i @ fragments i evs)"
  using assms
proof (induction evs arbitrary: s)
  case Nil
  then show ?case by simp
next
  case (Cons ev evs)
  obtain s1 where s1: "client_event ev s = Ok s1"
    using client_event_never_raises by blast
  have ok1: "store_ok s1"
    using store_ok_client_event [OF Cons.prems s1] .
  obtain s' where s': "client_events evs s1 = Ok s'" and ok': "store_ok s'"
    and b': "\<forall>i. body_of s' i = body_of s1 i @ fragments i evs"
    using Cons.IH [OF ok1] by blast
  have "\<forall>i. body_of s' i = body_of s i @ fragments i (ev # evs)"
    using b' body_of_client_event [OF Cons.prems s1] fragments_Cons [of _ ev evs] by simp
  then show ?case using s1 s' ok' by simp
qed

lemma store_ok_init: "store_ok client_init"
  by (simp add: store_ok_def client_init_def)

lemma body_of_init: "body_of client_init i = []"
  by (simp add: body_of_def client_init_def)

text \<open>
  C3.  Whatever the interleaving of events over the streams of a connection, the client's
  event handler returns, and the body accumulated for each stream id is what it was
  before followed by the payloads of exactly the \<open>DataReceived\<close> events that carry that
  stream id, in delivery order.
\<close>

theorem stream_bodies_isolated:
  assumes "store_ok s"
  shows "\<exists>s'. client_quic_event_received (Inr evs) s = Ok s' \<and> store_ok s'
           \<and> (\<forall>sid. body_of s' sid = body_of s sid @ fragments sid evs)"
  using client_events_bodies [OF assms, of evs]
  by (simp add: client_quic_event_received_def)

theorem stream_bodies_isolated_witness:
  "store_ok client_init \<and>
   (\<exists>s'. client_quic_event_received
            (Inr [DataReceived 0 ''ab'' False, HeadersReceived 4 [('':status'', ''200'')] False,
                  DataReceived 4 ''xy'' False, DataReceived 0 ''cd'' True,
                  DataReceived 4 ''z'' True]) client_init = Ok s'
          \<and> body_of s' 0 = ''abcd'' \<and> body_of s' 4 = ''xyz'' \<and> body_of s' 8 = [])"
  using stream_bodies_isolated [OF store_ok_init, of
      "[DataReceived 0 ''ab'' False, HeadersReceived 4 [('':status'', ''200'')] False,
        DataReceived 4 ''xy'' False, DataReceived 0 ''cd'' True,
        DataReceived 4 ''z'' True]"]
  by (auto simp: body_of_init store_ok_init)

lemma resolutions_client_event:
  assumes "client_event ev s = Ok s'"
  shows "resolutions sid s' + (if request_waiter s' sid = Some Pending then 1 else 0)
           \<le> resolutions sid s + (if request_waiter s sid = Some Pending then 1 else 0)
         \<and> resolutions sid s \<le> resolutions sid s'"
proof (cases ev)
  case (HeadersReceived i hdrs ended)
  then show ?thesis
    using assms by (auto simp: client_defs resolutions_def split: option.splits)
next
  case (DataReceived i payload ended)
  show ?thesis
  proof (cases "request_waiter s i")
    case None
    then show ?thesis
      using assms unfolding DataReceived
      by (auto simp: client_defs resolutions_def split: option.splits if_splits)
  next
    case (Some w)
    then show ?thesis
      using assms unfolding DataReceived
      by (cases w) (auto simp: client_defs resolutions_def split: option.splits if_splits)
  qed
next
  case OtherEvent
  then show ?thesis using assms by simp
qed

lemma resolutions_client_events:
  assumes "client_events evs s = Ok s'"
  shows "resolutions sid s' + (if request_waiter s' sid = Some Pending then 1 else 0)
           \<le> resolutions sid s + (if request_waiter s sid = Some Pending then 1 else 0)
         \<and> resolutions sid s \<le> resolutions sid s'"
  using assms
proof (induction evs arbitrary: s)
  case Nil
  then show ?case by simp
next
  case (Cons ev evs)
  obtain s1 where s1: "client_event ev s = Ok s1"
    using client_event_never_raises by blast
  have rest: "client_events evs s1 = Ok s'"
    using Cons.prems s1 by simp
  show ?case
    using resolutions_client_event [OF s1, of sid] Cons.IH [OF rest] by linarith
qed


lemma server_events_statuses:
  assumes acc: "\<And>ops op. accepts env ops op"
  shows "\<exists>s'. server_events env evs s = Ok s'
           \<and> length (statuses_on sid (h3_sent s')) =
               length (statuses_on sid (h3_sent s))
               + length (filter (\<lambda>r. fst r = sid) (requests evs))"
proof (induction evs arbitrary: s)
  case Nil
  show ?case by simp
next
  case (Cons ev evs)
  show ?case
  proof (cases ev)
    case (HeadersReceived i hdrs ended)
    obtain s1 status ctype n body
      where h: "handle_request env (HeadersReceived i hdrs ended) s = Ok s1"
        and r: "h3_sent s1 = h3_sent s @ response i status ctype n body"
      using handle_request_responds [OF acc] by blast
    obtain s' where s': "server_events env evs s1 = Ok s'"
      and c: "length (statuses_on sid (h3_sent s')) =
               length (statuses_on sid (h3_sent s1))
               + length (filter (\<lambda>r. fst r = sid) (requests evs))"
      using Cons.IH [of s1] by blast
    have "server_events env (ev # evs) s = Ok s'"
      unfolding HeadersReceived server_events.simps h using s' by simp
    moreover have "length (statuses_on sid (h3_sent s')) =
               length (statuses_on sid (h3_sent s))
               + length (filter (\<lambda>r. fst r = sid) (requests (ev # evs)))"
      using c r unfolding HeadersReceived
      by (simp add: statuses_on_append statuses_on_response)
    ultimately show ?thesis by blast
  next
    case (DataReceived i payload ended)
    then show ?thesis using Cons.IH [of s] by simp
  next
    case OtherEvent
    then show ?thesis using Cons.IH [of s] by simp
  qed
qed

lemma root_request:
  "decode (dict_get (dict [('':path'', ''/'')]) '':path'' ''/'') = Inr (ascii ''/'')"
  "decode (dict_get (dict [('':path'', ''/'')]) '':method'' ''GET'') = Inr (ascii ''GET'')"
  by (simp_all add: dict_def dict_get_def decode_root decode_GET)

text \<open>
  C2.  The claim: two events with \<open>stream_ended = true\<close> for one stream make the server
  dispatch at most once.  The server keeps no record of what it has dispatched: two
  \<open>HeadersReceived\<close> events for stream 0 give two responses on stream 0.
\<close>

theorem server_dispatches_twice:
  "statuses_on 0
     (h3_sent (state_of
        (server_quic_event_received quiet_env
           (Inr [HeadersReceived 0 [('':path'', ''/'')] True,
                 HeadersReceived 0 [('':path'', ''/'')] True]) server_init)))
   = [''200'', ''200'']"
proof -
  obtain payload where h: "encode get_homepage = Inr payload"
    using encode_homepage by blast
  have one: "\<And>s. handle_request quiet_env (HeadersReceived 0 [('':path'', ''/'')] True) s
        = Ok (s\<lparr>h3_sent := h3_sent s
                 @ response 0 ''200'' ''text/html'' (length get_homepage) payload\<rparr>)"
    by (rule handle_request_root [OF quiet_env_accepts root_request h])
  show ?thesis
    unfolding server_quic_event_received_def
    by (simp add: one server_init_def statuses_on_append statuses_on_response
          del: handle_request_try.simps)
qed

lemma data_end_Cons: "data_end j (ev # evs) = (data_end j [ev] \<or> data_end j evs)"
  by (cases ev) auto

lemma client_event_resolves:
  assumes "client_event ev s = Ok s'"
    and "request_waiter s sid = Some Pending"
  shows "if data_end sid [ev] then resolutions sid s' = resolutions sid s + 1
         else request_waiter s' sid = Some Pending"
proof (cases ev)
  case (HeadersReceived i hdrs ended)
  then show ?thesis
    using assms by (auto simp: client_defs resolutions_def split: option.splits)
next
  case (DataReceived i payload ended)
  show ?thesis
  proof (cases "request_waiter s i")
    case None
    then show ?thesis
      using assms unfolding DataReceived
      by (auto simp: client_defs resolutions_def split: option.splits if_splits)
  next
    case (Some w)
    then show ?thesis
      using assms unfolding DataReceived
      by (cases w) (auto simp: client_defs resolutions_def split: option.splits if_splits)
  qed
next
  case OtherEvent
  then show ?thesis using assms by simp
qed

lemma client_events_resolve:
  assumes "client_events evs s = Ok s'"
    and "request_waiter s sid = Some Pending"
    and "data_end sid evs"
  shows "resolutions sid s + 1 \<le> resolutions sid s'"
  using assms
proof (induction evs arbitrary: s)
  case Nil
  then show ?case by simp
next
  case (Cons ev evs)
  obtain s1 where s1: "client_event ev s = Ok s1"
    using client_event_never_raises by blast
  have rest: "client_events evs s1 = Ok s'"
    using Cons.prems(1) s1 by simp
  show ?case
  proof (cases "data_end sid [ev]")
    case True
    then have "resolutions sid s1 = resolutions sid s + 1"
      using client_event_resolves [OF s1 Cons.prems(2)] by simp
    then show ?thesis
      using resolutions_client_events [OF rest, of sid] by linarith
  next
    case False
    then have p: "request_waiter s1 sid = Some Pending"
      using client_event_resolves [OF s1 Cons.prems(2)] by simp
    have d: "data_end sid evs"
      using Cons.prems(3) False data_end_Cons [of sid ev evs] by simp
    show ?thesis
      using Cons.IH [OF rest p d] resolutions_client_event [OF s1, of sid] by linarith
  qed
qed

text \<open>
  C2, amended.  For every event list: the client calls \<open>set_result\<close> for a stream at most
  once more, not at all when the stream's waiter is absent or already done, and exactly
  once when the waiter is pending and the list holds a \<open>DataReceived\<close> event of the stream
  with \<open>stream_ended = true\<close>, however many such events there are; the server (on a
  transport that takes the calls) sends one response on a stream for each
  \<open>HeadersReceived\<close> event of that stream, whatever the \<open>stream_ended\<close> flags.
\<close>

theorem resolved_at_most_once:
  assumes "\<And>ops op. accepts env ops op"
  shows "(\<exists>c'. client_quic_event_received (Inr evs) c = Ok c'
            \<and> resolutions sid c' \<le> resolutions sid c + 1
            \<and> (request_waiter c sid \<noteq> Some Pending \<longrightarrow> resolutions sid c' = resolutions sid c)
            \<and> (request_waiter c sid = Some Pending \<and> data_end sid evs \<longrightarrow>
                 resolutions sid c' = resolutions sid c + 1))
         \<and> (\<exists>s'. server_quic_event_received env (Inr evs) s = Ok s'
            \<and> length (statuses_on sid (h3_sent s')) =
                length (statuses_on sid (h3_sent s))
                + length (filter (\<lambda>r. fst r = sid) (requests evs)))"
proof -
  obtain c' where c': "client_events evs c = Ok c'"
    using client_events_never_raises by blast
  have r: "resolutions sid c' + (if request_waiter c' sid = Some Pending then 1 else 0)
           \<le> resolutions sid c + (if request_waiter c sid = Some Pending then 1 else 0)
         \<and> resolutions sid c \<le> resolutions sid c'"
    using resolutions_client_events [OF c'] .
  have upper: "resolutions sid c' \<le> resolutions sid c + 1"
    using r by (simp split: if_splits)
  have idle: "request_waiter c sid \<noteq> Some Pending \<longrightarrow> resolutions sid c' = resolutions sid c"
    using r by (simp split: if_splits)
  have once: "request_waiter c sid = Some Pending \<and> data_end sid evs \<longrightarrow>
                 resolutions sid c' = resolutions sid c + 1"
    using client_events_resolve [OF c', of sid] upper by auto
  have client: "\<exists>c'. client_quic_event_received (Inr evs) c = Ok c'
            \<and> resolutions sid c' \<le> resolutions sid c + 1
            \<and> (request_waiter c sid \<noteq> Some Pending \<longrightarrow> resolutions sid c' = resolutions sid c)
            \<and> (request_waiter c sid = Some Pending \<and> data_end sid evs \<longrightarrow>
                 resolutions sid c' = resolutions sid c + 1)"
    using c' upper idle once by (simp add: client_quic_event_received_def)
  obtain s' where s': "server_events env evs s = Ok s'"
    and n: "length (statuses_on sid (h3_sent s')) =
                length (statuses_on sid (h3_sent s))
                + length (filter (\<lambda>r. fst r = sid) (requests evs))"
    using server_events_statuses [OF assms] by blast
  have server: "\<exists>s'. server_quic_event_received env (Inr evs) s = Ok s'
            \<and> length (statuses_on sid (h3_sent s')) =
                length (statuses_on sid (h3_sent s))
                + length (filter (\<lambda>r. fst r = sid) (requests evs))"
    using s' n by (simp add: server_quic_event_received_def)
  show ?thesis using client server by (rule conjI)
qed


lemma client_get_accepted:
  assumes acc: "\<And>ops op. accepts env ops op"
    and p: "encode path = Inr p"
  shows "client_get env sid path s =
           Ok (s\<lparr>h3_sent := h3_sent s
                   @ [SendHeaders sid
                        [('':method'', ''GET''), ('':scheme'', ''https''),
                         ('':authority'', ''localhost:4433''), ('':path'', p),
                         (''user-agent'', ''Python-HTTP3-Client'')] True,
                      Transmit],
                 heap := (heap s)(next_addr s := empty_entry),
                 request_events := (request_events s)(sid \<mapsto> next_addr s),
                 next_addr := next_addr s + 1,
                 request_waiter := (request_waiter s)(sid \<mapsto> Pending),
                 deadline := (deadline s)(sid \<mapsto> clock s + timeout)\<rparr>)"
  by (simp add: client_get_def p send_headers_def transmit_def h3_call_def acc new_entry_def)

lemma encode_root: "encode (ascii ''/'') = Inr ''/''"
  by (simp add: encode_def encode_cps_ascii)

lemma one_request_eq:
  "one_request =
     \<lparr>h3_sent = [SendHeaders 0
                    [('':method'', ''GET''), ('':scheme'', ''https''),
                     ('':authority'', ''localhost:4433''), ('':path'', ''/''),
                     (''user-agent'', ''Python-HTTP3-Client'')] True,
                  Transmit],
      heap = (\<lambda>a. empty_entry), next_addr = 1,
      request_events = [0 \<mapsto> 0], request_waiter = [0 \<mapsto> Pending],
      set_result_calls = [], clock = 0, deadline = [0 \<mapsto> 5]\<rparr>"
  unfolding one_request_def client_get_accepted [OF quiet_env_accepts encode_root]
  by (simp add: client_init_def timeout_def fun_eq_iff)

theorem resolved_at_most_once_witness:
  "request_waiter one_request 0 = Some Pending
   \<and> data_end 0 [HeadersReceived 0 [('':path'', ''/'')] True, DataReceived 0 ''a'' True,
                  HeadersReceived 0 [('':path'', ''/'')] True, DataReceived 0 ''b'' True]
   \<and> (\<exists>c'. client_quic_event_received
             (Inr [HeadersReceived 0 [('':path'', ''/'')] True, DataReceived 0 ''a'' True,
                   HeadersReceived 0 [('':path'', ''/'')] True, DataReceived 0 ''b'' True])
             one_request = Ok c'
          \<and> resolutions 0 c' = 1)
   \<and> (\<exists>s'. server_quic_event_received quiet_env
             (Inr [HeadersReceived 0 [('':path'', ''/'')] True, DataReceived 0 ''a'' True,
                   HeadersReceived 0 [('':path'', ''/'')] True, DataReceived 0 ''b'' True])
             server_init = Ok s'
          \<and> length (statuses_on 0 (h3_sent s')) = 2)"
proof -
  have p: "request_waiter one_request 0 = Some Pending"
    by (simp add: one_request_eq)
  have d: "data_end 0 [HeadersReceived 0 [('':path'', ''/'')] True, DataReceived 0 ''a'' True,
                  HeadersReceived 0 [('':path'', ''/'')] True, DataReceived 0 ''b'' True]"
    by simp
  have z: "resolutions 0 one_request = 0"
    by (simp add: one_request_eq resolutions_def)
  have e: "statuses_on 0 (h3_sent server_init) = []"
    by (simp add: server_init_def)
  have n: "length (filter (\<lambda>r. fst r = 0)
             (requests [HeadersReceived 0 [('':path'', ''/'')] True, DataReceived 0 ''a'' True,
                  HeadersReceived 0 [('':path'', ''/'')] True, DataReceived 0 ''b'' True])) = 2"
    by simp
  show ?thesis
    using resolved_at_most_once [OF quiet_env_accepts, where
        evs = "[HeadersReceived 0 [('':path'', ''/'')] True, DataReceived 0 ''a'' True,
                HeadersReceived 0 [('':path'', ''/'')] True, DataReceived 0 ''b'' True]"
        and c = one_request and s = server_init and sid = 0]
    unfolding z e n using p d by (auto simp: numeral_2_eq_2)
qed

text \<open>
  C4.  The claim: an event that ends the stream, on \<open>HeadersReceived\<close> or on
  \<open>DataReceived\<close>, resolves the registered waiter and removes it from the table.  After
  \<open>get\<close> on stream 0: a \<open>HeadersReceived\<close> event with the end-of-stream flag leaves the
  waiter pending, and a \<open>DataReceived\<close> event with the flag resolves the waiter but leaves
  it in the table.
\<close>

theorem end_of_stream_counterexample:
  "request_waiter
     (state_of (client_quic_event_received
        (Inr [HeadersReceived 0 [('':status'', ''204'')] True]) one_request)) 0
     = Some Pending
   \<and> request_waiter
     (state_of (client_quic_event_received
        (Inr [DataReceived 0 ''ok'' True]) one_request)) 0
     = Some (Resolved 0)"
  by (simp add: one_request_eq client_quic_event_received_def client_defs)

text \<open>
  C4, amended.  For every \<open>DataReceived\<close> event with \<open>stream_ended = true\<close>: if the waiter
  registered for its stream id is still pending, \<open>set_result\<close> is called once, with the
  stream's entry object, whose data is by then the earlier body followed by the event's
  payload and whose headers are the ones stored so far; the waiter stays in the table,
  resolved.  If no waiter is registered or the waiter is done, nothing is resolved.
\<close>

theorem end_on_data_resolves_pending_waiter:
  shows "\<exists>s' a. client_quic_event_received (Inr [DataReceived sid payload True]) s = Ok s'
           \<and> request_events s' sid = Some a
           \<and> body_of s' sid = body_of s sid @ payload
           \<and> headers_of s' sid = headers_of s sid
           \<and> dom (request_waiter s') = dom (request_waiter s)
           \<and> (request_waiter s sid = Some Pending \<longrightarrow>
                 request_waiter s' = (request_waiter s)(sid \<mapsto> Resolved a)
                 \<and> set_result_calls s' = set_result_calls s @ [(sid, a)])
           \<and> (request_waiter s sid \<noteq> Some Pending \<longrightarrow>
                 request_waiter s' = request_waiter s
                 \<and> set_result_calls s' = set_result_calls s)"
proof (cases "request_waiter s sid")
  case None
  then show ?thesis
    by (cases "request_events s sid")
       (auto simp: client_quic_event_received_def client_defs body_of_def headers_of_def
          empty_entry_def)
next
  case (Some w)
  then show ?thesis
    by (cases w; cases "request_events s sid")
       (auto simp: client_quic_event_received_def client_defs body_of_def headers_of_def
          empty_entry_def)
qed

theorem end_on_data_resolves_pending_waiter_witness:
  "\<exists>s'. client_quic_event_received (Inr [DataReceived 0 ''ok'' True]) one_request = Ok s'
         \<and> request_events s' 0 = Some 0
         \<and> body_of s' 0 = ''ok''
         \<and> request_waiter s' = [0 \<mapsto> Resolved 0]
         \<and> set_result_calls s' = [(0, 0)]"
  using end_on_data_resolves_pending_waiter [of 0 "''ok''" one_request]
  by (auto simp: one_request_eq body_of_def empty_entry_def client_quic_event_received_def
        client_defs)


section \<open>Runs of a client connection\<close>

lemma client_get_other:
  "j \<noteq> i \<Longrightarrow> request_waiter (state_of (client_get env i path s)) j = request_waiter s j"
  "j \<noteq> i \<Longrightarrow> deadline (state_of (client_get env i path s)) j = deadline s j"
  "clock (state_of (client_get env i path s)) = clock s"
  by (auto simp: client_get_def send_headers_def transmit_def h3_call_def new_entry_def
        split: sum.splits)

lemma client_get_dom:
  "dom (request_waiter s) \<subseteq> dom (request_waiter (state_of (client_get env i path s)))"
  by (auto simp: client_get_def send_headers_def transmit_def h3_call_def new_entry_def
        split: sum.splits)

lemma client_get_Ok:
  assumes "client_get env i path s = Ok s1"
  shows "request_waiter s1 i = Some Pending" "deadline s1 i = Some (clock s1 + timeout)"
  using assms
  by (auto simp: client_get_def send_headers_def transmit_def h3_call_def new_entry_def
        split: sum.splits if_splits)

lemma client_event_frame:
  assumes "client_event ev s = Ok s'"
  shows "clock s' = clock s" "deadline s' = deadline s"
    "dom (request_waiter s') = dom (request_waiter s)"
  using assms
  by (cases ev; auto simp: client_defs split: option.splits if_splits)+

lemma client_event_waiter:
  assumes "client_event ev s = Ok s'"
    and "\<not> data_end j [ev] \<or> request_waiter s j = Some Cancelled"
  shows "request_waiter s' j = request_waiter s j"
  using assms
  by (cases ev) (auto simp: client_defs split: option.splits if_splits)

lemma client_events_frame:
  assumes "client_events evs s = Ok s'"
  shows "clock s' = clock s \<and> deadline s' = deadline s
         \<and> dom (request_waiter s') = dom (request_waiter s)"
  using assms
proof (induction evs arbitrary: s)
  case Nil
  then show ?case by simp
next
  case (Cons ev evs)
  obtain s1 where s1: "client_event ev s = Ok s1"
    using client_event_never_raises by blast
  have "client_events evs s1 = Ok s'" using Cons.prems s1 by simp
  then show ?case
    using Cons.IH [of s1] client_event_frame [OF s1] by simp
qed

lemma client_events_waiter:
  assumes "client_events evs s = Ok s'"
    and "\<not> data_end j evs \<or> request_waiter s j = Some Cancelled"
  shows "request_waiter s' j = request_waiter s j"
  using assms
proof (induction evs arbitrary: s)
  case Nil
  then show ?case by simp
next
  case (Cons ev evs)
  obtain s1 where s1: "client_event ev s = Ok s1"
    using client_event_never_raises by blast
  have rest: "client_events evs s1 = Ok s'" using Cons.prems(1) s1 by simp
  have c: "\<not> data_end j [ev] \<or> request_waiter s j = Some Cancelled"
    using Cons.prems(2) data_end_Cons [of j ev evs] by blast
  have w1: "request_waiter s1 j = request_waiter s j"
    using client_event_waiter [OF s1 c] .
  have c': "\<not> data_end j evs \<or> request_waiter s1 j = Some Cancelled"
    using Cons.prems(2) data_end_Cons [of j ev evs] w1 by auto
  show ?case
    using Cons.IH [OF rest c'] w1 by simp
qed

lemma client_step_dom:
  "dom (request_waiter s) \<subseteq> dom (request_waiter (client_step env s st))"
proof (cases st)
  case (Get i path)
  then show ?thesis using client_get_dom by simp
next
  case (Received handled)
  show ?thesis
  proof (cases handled)
    case (Inl e)
    then show ?thesis using Received by (simp add: client_quic_event_received_def)
  next
    case (Inr evs)
    obtain s' where s': "client_events evs s = Ok s'"
      using client_events_never_raises by blast
    then show ?thesis
      using Received Inr client_events_frame [OF s']
      by (simp add: client_quic_event_received_def)
  qed
next
  case (Tick t)
  then show ?thesis
    by (auto simp: advance_clock_def expire_waiter_def split: option.splits future.splits)
qed

lemma client_run_dom:
  "dom (request_waiter s) \<subseteq> dom (request_waiter (client_run env steps s))"
proof (induction steps arbitrary: s)
  case Nil
  show ?case by (simp add: client_run_def)
next
  case (Cons st steps)
  have "dom (request_waiter (client_step env s st))
          \<subseteq> dom (request_waiter (client_run env steps (client_step env s st)))"
    using Cons.IH .
  then show ?case
    using client_step_dom [of s env st] by (simp add: client_run_def)
qed


lemma run_Cons: "client_run env (st # steps) s = client_run env steps (client_step env s st)"
  by (simp add: client_run_def)

lemma run_Nil: "client_run env [] s = s"
  by (simp add: client_run_def)

lemma received_step:
  "client_events evs s = Ok s' \<Longrightarrow> client_step env s (Received (Inr evs)) = s'"
  by (simp add: client_quic_event_received_def)

text \<open>
  C5.  The claim: a waiter leaves the table once it is resolved or its request has timed
  out.  Nothing in the client deletes from \<open>_request_waiter\<close>: after \<open>get\<close> and the
  response the table still holds the resolved future of stream 0, and after \<open>get\<close> and
  five seconds without a response it still holds the cancelled future of stream 4.
\<close>

theorem waiter_kept_counterexample:
  "request_waiter
     (client_run quiet_env
        [Get 0 (ascii ''/''), Received (Inr [DataReceived 0 ''ok'' True])] client_init) 0
     = Some (Resolved 0)
   \<and> request_waiter
     (client_run quiet_env [Get 4 (ascii ''/''), Tick 5] client_init) 4
     = Some Cancelled"
proof -
  have g: "\<And>i. client_get quiet_env i (ascii ''/'') client_init =
     Ok (client_init\<lparr>h3_sent := h3_sent client_init
                   @ [SendHeaders i
                        [('':method'', ''GET''), ('':scheme'', ''https''),
                         ('':authority'', ''localhost:4433''), ('':path'', ''/''),
                         (''user-agent'', ''Python-HTTP3-Client'')] True,
                      Transmit],
                 heap := (heap client_init)(next_addr client_init := empty_entry),
                 request_events := (request_events client_init)(i \<mapsto> next_addr client_init),
                 next_addr := next_addr client_init + 1,
                 request_waiter := (request_waiter client_init)(i \<mapsto> Pending),
                 deadline := (deadline client_init)(i \<mapsto> clock client_init + timeout)\<rparr>)"
    by (rule client_get_accepted [OF quiet_env_accepts encode_root])
  show ?thesis
    unfolding run_Cons run_Nil client_step.simps g state_of.simps
    by (simp add: client_init_def client_quic_event_received_def
          client_defs advance_clock_def expire_waiter_def timeout_def)
qed

text \<open>
  C5, amended.  A stream id registered in the waiter table stays registered: after any
  sequence of \<open>get\<close> calls, received events and clock readings, every key of the table is
  still a key.  Resolution and timeout change the future stored under the key, not the
  table's keys.
\<close>

theorem waiter_table_never_shrinks:
  "dom (request_waiter s) \<subseteq> dom (request_waiter (client_run env steps s))"
  by (rule client_run_dom)

lemma timeout_invariant:
  assumes "deadline s sid = Some due"
    and "(clock s < due \<and> request_waiter s sid = Some Pending)
         \<or> (due \<le> clock s \<and> request_waiter s sid = Some Cancelled)"
    and "\<not> answered_in_time sid due (clock s) steps"
  shows "deadline (client_run env steps s) sid = Some due
         \<and> ((clock (client_run env steps s) < due
              \<and> request_waiter (client_run env steps s) sid = Some Pending)
            \<or> (due \<le> clock (client_run env steps s)
              \<and> request_waiter (client_run env steps s) sid = Some Cancelled))"
  using assms
proof (induction steps arbitrary: s)
  case Nil
  then show ?case by (simp add: run_Nil)
next
  case (Cons st steps)
  let ?s1 = "client_step env s st"
  have step: "deadline ?s1 sid = Some due
      \<and> ((clock ?s1 < due \<and> request_waiter ?s1 sid = Some Pending)
          \<or> (due \<le> clock ?s1 \<and> request_waiter ?s1 sid = Some Cancelled))
      \<and> \<not> answered_in_time sid due (clock ?s1) steps"
  proof (cases st)
    case (Get i path)
    then have ne: "sid \<noteq> i" using Cons.prems(3) by auto
    show ?thesis
      using Cons.prems Get ne by (simp add: client_get_other)
  next
    case (Received handled)
    show ?thesis
    proof (cases handled)
      case (Inl e)
      then show ?thesis
        using Cons.prems Received by (simp add: client_quic_event_received_def)
    next
      case (Inr evs)
      obtain s' where s': "client_events evs s = Ok s'"
        using client_events_never_raises by blast
      have st1: "?s1 = s'"
        using received_step [OF s'] Received Inr by simp
      have c: "\<not> data_end sid evs \<or> request_waiter s sid = Some Cancelled"
        using Cons.prems(2,3) Received Inr by auto
      have w: "request_waiter s' sid = request_waiter s sid"
        using client_events_waiter [OF s' c] .
      show ?thesis
        unfolding st1 using client_events_frame [OF s'] w Cons.prems Received Inr by auto
    qed
  next
    case (Tick t)
    then show ?thesis
      using Cons.prems
      by (auto simp: advance_clock_def expire_waiter_def max_def split: if_splits)
  qed
  show ?case
    unfolding run_Cons using Cons.IH [of ?s1] step by blast
qed


lemma advance_clock_frame:
  "request_events (advance_clock t s) = request_events s"
  "heap (advance_clock t s) = heap s"
  "deadline (advance_clock t s) = deadline s"
  by (simp_all add: advance_clock_def)

lemma advance_clock_not_due:
  "(\<forall>d. deadline s j = Some d \<longrightarrow> t < d)
     \<Longrightarrow> request_waiter (advance_clock t s) j = request_waiter s j"
  by (auto simp: advance_clock_def expire_waiter_def split: option.splits future.splits)

text \<open>
  C8.  \<open>get\<close> awaits its waiter under \<open>wait_for(waiter, timeout=5.0)\<close>.  Time is the reading
  of the event loop's clock, which the steps of a run advance.  If, from the moment \<open>get\<close>
  starts to wait, no \<open>DataReceived\<close> event with the end-of-stream flag arrives for its
  stream while the clock is less than five seconds further (and the stream id is not
  issued again), then once the clock has reached that reading \<open>get\<close> has raised
  \<open>TimeoutError\<close>: it has neither returned an entry nor is it still suspended.  Until then
  it is suspended.  A clock reading that cancels one waiter changes no table entry and no
  stored object, and leaves every waiter whose own deadline lies later as it was.
\<close>

theorem unanswered_get_times_out:
  assumes "client_get env sid path s0 = Ok s1"
    and "\<not> answered_in_time sid (clock s1 + timeout) (clock s1) steps"
  shows "timeout = 5
       \<and> deadline s1 sid = Some (clock s1 + timeout)
       \<and> (clock s1 + timeout \<le> clock (client_run env steps s1) \<longrightarrow>
            get_outcome (client_run env steps s1) sid = Some (Inl TimeoutError))
       \<and> (clock (client_run env steps s1) < clock s1 + timeout \<longrightarrow>
            get_outcome (client_run env steps s1) sid = None)
       \<and> (\<forall>t s j. request_events (advance_clock t s) = request_events s
              \<and> heap (advance_clock t s) = heap s
              \<and> deadline (advance_clock t s) = deadline s
              \<and> ((\<forall>d. deadline s j = Some d \<longrightarrow> t < d) \<longrightarrow>
                    request_waiter (advance_clock t s) j = request_waiter s j))"
proof -
  let ?due = "clock s1 + timeout"
  let ?s2 = "client_run env steps s1"
  have d: "deadline s1 sid = Some ?due" and w: "request_waiter s1 sid = Some Pending"
    using client_get_Ok [OF assms(1)] by simp_all
  have t5: "timeout = 5" by (simp add: timeout_def)
  have start: "(clock s1 < ?due \<and> request_waiter s1 sid = Some Pending)
         \<or> (?due \<le> clock s1 \<and> request_waiter s1 sid = Some Cancelled)"
    using w t5 by simp
  have inv: "deadline ?s2 sid = Some ?due
         \<and> ((clock ?s2 < ?due \<and> request_waiter ?s2 sid = Some Pending)
            \<or> (?due \<le> clock ?s2 \<and> request_waiter ?s2 sid = Some Cancelled))"
    using timeout_invariant [OF d start assms(2)] .
  have late: "?due \<le> clock ?s2 \<longrightarrow> get_outcome ?s2 sid = Some (Inl TimeoutError)"
    using inv by (auto simp: get_outcome_def)
  have early: "clock ?s2 < ?due \<longrightarrow> get_outcome ?s2 sid = None"
    using inv by (auto simp: get_outcome_def)
  have others: "\<forall>t s j. request_events (advance_clock t s) = request_events s
              \<and> heap (advance_clock t s) = heap s
              \<and> deadline (advance_clock t s) = deadline s
              \<and> ((\<forall>d. deadline s j = Some d \<longrightarrow> t < d) \<longrightarrow>
                    request_waiter (advance_clock t s) j = request_waiter s j)"
    using advance_clock_frame advance_clock_not_due by blast
  show ?thesis
    using t5 d late early others by (intro conjI)
qed

lemma one_request_registered:
  "client_get quiet_env 0 (ascii ''/'') client_init = Ok one_request"
  unfolding one_request_def client_get_accepted [OF quiet_env_accepts encode_root]
  by simp

lemma clock_one_request: "clock one_request = 0"
  by (simp add: one_request_eq)

theorem unanswered_get_times_out_witness:
  "client_get quiet_env 0 (ascii ''/'') client_init = Ok one_request
   \<and> get_outcome
       (client_run quiet_env
          [Tick 2, Get 4 (ascii ''/''),
           Received (Inr [HeadersReceived 0 [('':status'', ''200'')] True,
                          DataReceived 0 ''partial'' False]),
           Tick 5] one_request) 0
     = Some (Inl TimeoutError)
   \<and> request_waiter
       (client_run quiet_env
          [Tick 2, Get 4 (ascii ''/''),
           Received (Inr [HeadersReceived 0 [('':status'', ''200'')] True,
                          DataReceived 0 ''partial'' False]),
           Tick 5] one_request) 4
     = Some Pending"
proof -
  let ?steps = "[Tick 2, Get 4 (ascii ''/''),
           Received (Inr [HeadersReceived 0 [('':status'', ''200'')] True,
                          DataReceived 0 ''partial'' False]),
           Tick 5]"
  have q: "\<not> answered_in_time 0 (clock one_request + timeout) (clock one_request) ?steps"
    by (simp add: clock_one_request timeout_def)
  have run: "clock (client_run quiet_env ?steps one_request) = 5
      \<and> request_waiter (client_run quiet_env ?steps one_request) 4 = Some Pending"
    unfolding run_Cons run_Nil client_step.simps
      client_get_accepted [OF quiet_env_accepts encode_root] state_of.simps
    by (simp add: one_request_eq client_quic_event_received_def
          client_defs advance_clock_def expire_waiter_def timeout_def)
  show ?thesis
    using unanswered_get_times_out [OF one_request_registered q] run one_request_registered
    by (simp add: clock_one_request timeout_def)
qed

theorem waiter_table_never_shrinks_witness:
  "dom (request_waiter one_request)
     \<subseteq> dom (request_waiter
            (client_run quiet_env
               [Received (Inr [DataReceived 0 ''ok'' True]), Tick 9] one_request))"
  using waiter_table_never_shrinks [of one_request quiet_env
      "[Received (Inr [DataReceived 0 ''ok'' True]), Tick 9]"]
  by simp


lemma store_ok_new_entry: "store_ok s \<Longrightarrow> store_ok (new_entry i s)"
  unfolding store_ok_def new_entry_def by (auto split: if_splits) fastforce+

lemma store_ok_frame:
  "store_ok s \<Longrightarrow> request_events s' = request_events s \<Longrightarrow> next_addr s' = next_addr s
     \<Longrightarrow> store_ok s'"
  by (simp add: store_ok_def)

lemma store_ok_client_get:
  assumes "store_ok s"
  shows "store_ok (state_of (client_get env i path s))"
proof -
  have n: "store_ok (new_entry i s)"
    using store_ok_new_entry [OF assms] .
  have "request_events (state_of (client_get env i path s)) = request_events s
          \<and> next_addr (state_of (client_get env i path s)) = next_addr s
        \<or> request_events (state_of (client_get env i path s)) = request_events (new_entry i s)
          \<and> next_addr (state_of (client_get env i path s)) = next_addr (new_entry i s)"
    by (auto simp: client_get_def send_headers_def transmit_def h3_call_def new_entry_def
          split: sum.splits)
  then show ?thesis
    using assms n store_ok_frame by blast
qed

lemma store_ok_client_step:
  assumes "store_ok s"
  shows "store_ok (client_step env s st)"
proof (cases st)
  case (Get i path)
  then show ?thesis using store_ok_client_get [OF assms] by simp
next
  case (Received handled)
  show ?thesis
  proof (cases handled)
    case (Inl e)
    then show ?thesis using Received assms by (simp add: client_quic_event_received_def)
  next
    case (Inr evs)
    obtain s' where "client_events evs s = Ok s'" "store_ok s'"
      using client_events_bodies [OF assms] by blast
    then show ?thesis
      using Received Inr by (simp add: client_quic_event_received_def)
  qed
next
  case (Tick t)
  then show ?thesis
    using assms by (simp add: advance_clock_def store_ok_def)
qed

lemma store_ok_client_run: "store_ok s \<Longrightarrow> store_ok (client_run env steps s)"
proof (induction steps arbitrary: s)
  case Nil
  then show ?case by (simp add: run_Nil)
next
  case (Cons st steps)
  show ?case
    unfolding run_Cons using Cons.IH [OF store_ok_client_step [OF Cons.prems]] .
qed

lemma store_ok_reachable: "store_ok (client_run env steps client_init)"
  using store_ok_client_run [OF store_ok_init] .


section \<open>The status route\<close>

text \<open>
  C9.  A request whose \<open>:path\<close> is \<open>/api/status\<close> and whose \<open>:method\<close> is \<open>GET\<close> is answered,
  on a transport that takes the calls, with status 200 and content type
  \<open>application/json\<close>; the bytes sent decode to the text \<open>json.dumps\<close> produced for the
  current clock reading, and \<open>json.loads\<close> of that text is an object whose \<open>status\<close> member
  is the string \<open>healthy\<close>.
\<close>

theorem api_status_answers_healthy:
  assumes "\<And>ops op. accepts env ops op"
    and "dict hdrs '':path'' = Some ''/api/status''"
    and "dict hdrs '':method'' = Some ''GET''"
  shows "\<exists>payload body t.
           handle_request env (HeadersReceived sid hdrs ended) s =
             Ok (s\<lparr>clock_reads := clock_reads s + 1,
                   h3_sent := h3_sent s
                     @ response sid ''200'' ''application/json'' (length body) payload\<rparr>)
           \<and> body = status_body (isoformat_now env (clock_reads s))
           \<and> decode payload = Inr body
           \<and> json_loads body =
               Some (JDict [(ascii ''status'', JStr (ascii ''healthy'')),
                            (ascii ''protocol'', JStr (ascii ''HTTP/3'')),
                            (ascii ''timestamp'', JStr t)])"
proof -
  let ?body = "status_body (isoformat_now env (clock_reads s))"
  have p: "decode (dict_get (dict hdrs) '':path'' ''/'') = Inr (ascii ''/api/status'')"
    using assms(2) by (simp add: dict_get_def decode_api_status)
  have m: "decode (dict_get (dict hdrs) '':method'' ''GET'') = Inr (ascii ''GET'')"
    using assms(3) by (simp add: dict_get_def decode_GET)
  have h: "handle_request env (HeadersReceived sid hdrs ended) s =
             Ok (s\<lparr>clock_reads := clock_reads s + 1,
                   h3_sent := h3_sent s
                     @ response sid ''200'' ''application/json'' (length ?body)
                         (ascii_bytes ?body)\<rparr>)"
    using handle_request_status [OF assms(1) p m] unfolding status_body_def .
  have d: "decode (ascii_bytes ?body) = Inr ?body"
    unfolding status_body_def by (rule decode_ascii_bytes [OF is_ascii_json_dumps])
  obtain t where l: "json_loads ?body =
               Some (JDict [(ascii ''status'', JStr (ascii ''healthy'')),
                            (ascii ''protocol'', JStr (ascii ''HTTP/3'')),
                            (ascii ''timestamp'', JStr t)])"
    using loads_status by blast
  show ?thesis
    using h d l by blast
qed

theorem api_status_answers_healthy_witness:
  "dict [('':method'', ''GET''), ('':path'', ''/api/status'')] '':path'' = Some ''/api/status''
   \<and> (\<exists>payload body t.
         handle_request quiet_env
           (HeadersReceived 0 [('':method'', ''GET''), ('':path'', ''/api/status'')] True)
           server_init =
           Ok \<lparr>h3_sent = response 0 ''200'' ''application/json'' (length body) payload,
                clock_reads = 1\<rparr>
         \<and> decode payload = Inr body
         \<and> json_loads body =
             Some (JDict [(ascii ''status'', JStr (ascii ''healthy'')),
                          (ascii ''protocol'', JStr (ascii ''HTTP/3'')),
                          (ascii ''timestamp'', JStr t)]))"
proof -
  have p: "dict [('':method'', ''GET''), ('':path'', ''/api/status'')] '':path''
             = Some ''/api/status''"
    by (simp add: dict_def)
  have m: "dict [('':method'', ''GET''), ('':path'', ''/api/status'')] '':method'' = Some ''GET''"
    by (simp add: dict_def)
  show ?thesis
    using api_status_answers_healthy [OF quiet_env_accepts p m, of 0 True server_init] p
    by (simp add: server_init_def) blast
qed

end
